theory Spec2Isabelle
  imports Main "HOL-Library.Multiset" "HOL-Library.Sublist"
begin

section \<open>Huffman compression of util.h\<close>

subsection \<open>Reserved symbols and characters\<close>

text \<open>
  Modelled from the spec: the two reserved symbol values. util.h uses the macros
  \<^verbatim>\<open>PSEUDO_EOF\<close> (the sentinel) and \<^verbatim>\<open>NOT_A_CHAR\<close> (the internal marker) of
  bitstream.h, which is not part of the sources at hand. The spec asks for two values
  outside the range of real symbols and distinct from each other; 256 and 257 are such
  values for 8-bit characters.
\<close>

definition PSEUDO_EOF :: int where
  "PSEUDO_EOF = 256"

definition NOT_A_CHAR :: int where
  "NOT_A_CHAR = 257"

text \<open>
  A C++ \<^verbatim>\<open>char\<close> is an Isabelle \<^typ>\<open>char\<close> (8 bits). Where util.h passes a
  \<^verbatim>\<open>char\<close> to a parameter of type \<^verbatim>\<open>int\<close> (\<^verbatim>\<open>map.containsKey(cur)\<close>,
  \<^verbatim>\<open>encodingMap.at(cur)\<close>) the value is promoted; \<^verbatim>\<open>char\<close> is taken as signed,
  so bytes from 128 on become negative keys. Where it stores an \<^verbatim>\<open>int\<close> into a
  \<^verbatim>\<open>char\<close> (\<^verbatim>\<open>buildString += curNode->character\<close>) the value is cut to 8 bits.
\<close>

definition char_to_int :: "char \<Rightarrow> int" where
  "char_to_int c = (if of_char c < (128::int) then of_char c else of_char c - 256)"

definition int_to_char :: "int \<Rightarrow> char" where
  "int_to_char i = char_of i"

text \<open>
  A C++ \<^verbatim>\<open>int\<close> has 32 bits. util.h computes with \<^verbatim>\<open>int\<close>s in three places:
  \<^verbatim>\<open>curVal+1\<close> in \<^verbatim>\<open>buildFrequencyMap\<close>, the sum of two counts in
  \<^verbatim>\<open>buildEncodingTree\<close> and \<^verbatim>\<open>size++\<close> in \<^verbatim>\<open>encode\<close>. A result that does not fit
  (C++ leaves signed overflow undefined) comes out, on a machine with two's complement
  arithmetic, as the value that differs from it by a multiple of 4294967296 and lies
  between -2147483648 and 2147483647. An \<^verbatim>\<open>int\<close> of the model is an integer, and
  \<open>int32\<close> is applied to every result that util.h computes.
\<close>

definition int32 :: "int \<Rightarrow> int" where
  "int32 x = (x + 2147483648) mod 4294967296 - 2147483648"

subsection \<open>The frequency hashmap\<close>

text \<open>
  Modelled from the spec: the container \<^verbatim>\<open>hashmap\<close> (\<^verbatim>\<open>hashmapF\<close>) of hashmap.h, which is
  not part of the sources at hand. The spec describes it as a mapping from symbol to count
  that is enumerable and offers lookup by key. It is an association list here:
  \<^verbatim>\<open>put\<close> replaces the value of a key that is present and appends a new key otherwise
  (util.h itself relies on that: it calls \<^verbatim>\<open>put(cur, curVal+1)\<close> to raise a count by one),
  \<^verbatim>\<open>keys\<close> enumerates the keys in the order of the list. util.h calls \<^verbatim>\<open>get\<close> only
  for keys that are present; for an absent key the model's \<^verbatim>\<open>get\<close> yields 0.
\<close>

type_synonym hashmapF = "(int \<times> int) list"

definition containsKey :: "hashmapF \<Rightarrow> int \<Rightarrow> bool" where
  "containsKey m k = (map_of m k \<noteq> None)"

definition get :: "hashmapF \<Rightarrow> int \<Rightarrow> int" where
  "get m k = (case map_of m k of Some v \<Rightarrow> v | None \<Rightarrow> 0)"

fun put :: "hashmapF \<Rightarrow> int \<Rightarrow> int \<Rightarrow> hashmapF" where
  "put [] k v = [(k, v)]"
| "put ((k', v') # m) k v = (if k' = k then (k, v) # m else (k', v') # put m k v)"

definition keys :: "hashmapF \<Rightarrow> int list" where
  "keys m = map fst m"

subsection \<open>Files and streams\<close>

text \<open>
  The files a call can see. Ordinary files hold characters. A compressed file holds the
  frequency header and the bits of the payload; the byte format of both belongs to
  hashmap.h and bitstream.h, so compressed files are kept in a store of their own, as the
  frequency map that was written with \<^verbatim>\<open><<\<close> and the payload bits (padded with zero bits
  to a whole number of bytes, which is what the spec says of the bit sink).

  A \<^verbatim>\<open>std::ofstream\<close> that cannot create its file does not fail loudly: it is not open,
  and what is put into it is lost. \<open>writable\<close> tells for which names an \<^verbatim>\<open>ofstream\<close>
  can create its file.

  Modelled from the spec: reading the header back with \<^verbatim>\<open>>>\<close> (hashmap.h and bitstream.h
  are not part of the sources at hand). The spec promises that the header round-trips the
  mapping from symbol to count; it does not say in which order the hashmap that \<^verbatim>\<open>>>\<close>
  rebuilds enumerates its keys. \<open>replay\<close> is that unknown: it takes the frequency map that
  was written to the frequency map that is read back.
\<close>

record filesystem =
  plain :: "string \<rightharpoonup> string"
  huf :: "string \<rightharpoonup> (hashmapF \<times> bool list)"
  writable :: "string \<Rightarrow> bool"
  replay :: "hashmapF \<Rightarrow> hashmapF"

text \<open>
  An \<^verbatim>\<open>ifstream\<close>: \<open>None\<close> when the file could not be opened, otherwise the
  characters not read yet. \<^verbatim>\<open>while (in.get(cur))\<close> runs once for each of them; on a
  stream that is not open the first \<^verbatim>\<open>get\<close> fails.
\<close>

type_synonym ifstream = "string option"

definition open_ifstream :: "filesystem \<Rightarrow> string \<Rightarrow> ifstream" where
  "open_ifstream fs filename = plain fs filename"

definition is_open :: "ifstream \<Rightarrow> bool" where
  "is_open s = (s \<noteq> None)"

definition unread :: "ifstream \<Rightarrow> string" where
  "unread s = (case s of None \<Rightarrow> [] | Some cs \<Rightarrow> cs)"

subsection \<open>buildFrequencyMap\<close>

text \<open>The body shared by the two loops of \<^verbatim>\<open>buildFrequencyMap\<close>.\<close>

definition count_symbol :: "hashmapF \<Rightarrow> char \<Rightarrow> hashmapF" where
  "count_symbol m cur =
     (if containsKey m (char_to_int cur)
      then (let curVal = get m (char_to_int cur) in put m (char_to_int cur) (int32 (curVal + 1)))
      else put m (char_to_int cur) 1)"

fun count_symbols :: "string \<Rightarrow> hashmapF \<Rightarrow> hashmapF" where
  "count_symbols [] m = m"
| "count_symbols (cur # rest) m = count_symbols rest (count_symbol m cur)"

text \<open>
  \<^verbatim>\<open>buildFrequencyMap(filename, isFile, map)\<close>: the map is passed by reference and is not
  cleared, so the model takes the map as it is on entry and returns it as it is on exit.
\<close>

definition buildFrequencyMap :: "filesystem \<Rightarrow> string \<Rightarrow> bool \<Rightarrow> hashmapF \<Rightarrow> hashmapF" where
  "buildFrequencyMap fs filename isFile m =
     (let inPut = open_ifstream fs filename;
          m1 = (if isFile then count_symbols (unread inPut) m
                else count_symbols filename m)
      in put m1 PSEUDO_EOF 1)"

subsection \<open>Huffman nodes and the priority queue\<close>

text \<open>
  A \<^verbatim>\<open>HuffmanNode*\<close> is \<open>Null\<close> (\<^verbatim>\<open>nullptr\<close>) or points to a node with the fields
  \<^verbatim>\<open>character\<close>, \<^verbatim>\<open>count\<close>, \<^verbatim>\<open>zero\<close> and \<^verbatim>\<open>one\<close>, in this order. util.h never
  shares a node between two parents, so a tree of nodes is a value of this type.
  Dereferencing \<^verbatim>\<open>nullptr\<close>, \<^verbatim>\<open>at\<close> on a missing key, \<^verbatim>\<open>substr\<close> past the end and
  \<^verbatim>\<open>top\<close> on an empty queue are the ways a call can fail. The queue of
  \<^verbatim>\<open>buildEncodingTree\<close> only ever holds nodes it has allocated, never \<^verbatim>\<open>nullptr\<close>;
  \<open>node_count Null\<close> is 0 only to make the function total.
\<close>

datatype HuffmanNode = Null | Node int int HuffmanNode HuffmanNode

datatype error = null_pointer | out_of_range | empty_queue

fun node_count :: "HuffmanNode \<Rightarrow> int" where
  "node_count Null = 0"
| "node_count (Node ch cnt z1 o1) = cnt"

definition compare :: "HuffmanNode \<Rightarrow> HuffmanNode \<Rightarrow> bool" where
  "compare lhs rhs = (node_count lhs > node_count rhs)"

text \<open>
  \<^verbatim>\<open>std::priority_queue<HuffmanNode*, vector<HuffmanNode*>, compare>\<close> belongs to the C++
  library, not to util.h. It is a binary heap kept in a vector: \<^verbatim>\<open>top\<close> is the first
  element, a node of least count (\<^verbatim>\<open>compare\<close> holds of it and no other node of the
  queue); the parent of the element at index \<open>i\<close> is the element at index
  \<open>(i - 1) div 2\<close>. Which of several nodes of least count is the first element depends on
  how the heap is kept. The model follows the GNU C++ library, where \<^verbatim>\<open>push\<close> is
  \<^verbatim>\<open>push_back\<close> and \<^verbatim>\<open>std::push_heap\<close>, and \<^verbatim>\<open>pop\<close> is \<^verbatim>\<open>std::pop_heap\<close> and
  \<^verbatim>\<open>pop_back\<close>.

  \<^verbatim>\<open>__push_heap(first, holeIndex, topIndex, value, comp)\<close>: the hole moves up while it is
  below \<^verbatim>\<open>topIndex\<close> and \<^verbatim>\<open>comp(parent, value)\<close> holds, the parent moving down into the
  hole; then the value is stored in the hole.
\<close>

function push_heap :: "HuffmanNode list \<Rightarrow> nat \<Rightarrow> nat \<Rightarrow> HuffmanNode \<Rightarrow> HuffmanNode list" where
  "push_heap c holeIndex topIndex v =
     (let parent = (holeIndex - 1) div 2 in
      if holeIndex > topIndex \<and> compare (c ! parent) v
      then push_heap (c[holeIndex := c ! parent]) parent topIndex v
      else c[holeIndex := v])"
  by pat_completeness auto
termination
  by (relation "measure (\<lambda>(c, holeIndex, topIndex, v). holeIndex)") auto

declare push_heap.simps [simp del]

text \<open>
  \<^verbatim>\<open>__adjust_heap(first, holeIndex, len, value, comp)\<close>. Its loop moves the hole down
  while it has two children (at the head of the loop \<^verbatim>\<open>secondChild\<close> is the index of the
  hole): \<^verbatim>\<open>secondChild\<close> becomes the right child, and the left child is taken instead when
  \<^verbatim>\<open>comp(right, left)\<close> holds; the child taken moves up into the hole.
  A hole left with a single child (the length is even and the hole is the parent of the
  last element) takes that child. Then the value is pushed up from the hole with
  \<^verbatim>\<open>__push_heap\<close>.
\<close>

function adjust_heap_loop :: "HuffmanNode list \<Rightarrow> nat \<Rightarrow> nat \<Rightarrow> HuffmanNode list \<times> nat" where
  "adjust_heap_loop c holeIndex len =
     (if holeIndex < (len - 1) div 2 then
        (let secondChild = 2 * (holeIndex + 1);
             secondChild1 = (if compare (c ! secondChild) (c ! (secondChild - 1))
                             then secondChild - 1 else secondChild)
         in adjust_heap_loop (c[holeIndex := c ! secondChild1]) secondChild1 len)
      else (c, holeIndex))"
  by pat_completeness auto
termination
  by (relation "measure (\<lambda>(c, holeIndex, len). len - holeIndex)") auto

declare adjust_heap_loop.simps [simp del]

definition adjust_heap :: "HuffmanNode list \<Rightarrow> nat \<Rightarrow> nat \<Rightarrow> HuffmanNode \<Rightarrow> HuffmanNode list" where
  "adjust_heap c holeIndex len v =
     (case adjust_heap_loop c holeIndex len of
        (c1, secondChild) \<Rightarrow>
          (if len mod 2 = 0 \<and> secondChild = (len - 2) div 2
           then push_heap (c1[secondChild := c1 ! (2 * (secondChild + 1) - 1)])
                  (2 * (secondChild + 1) - 1) holeIndex v
           else push_heap c1 secondChild holeIndex v))"

text \<open>
  \<^verbatim>\<open>pq.push(n)\<close> appends the node and pushes it up from the last index. \<^verbatim>\<open>pq.pop()\<close>
  on more than one node takes the last node as the value, adjusts the heap of the other
  nodes from a hole at index 0, and drops the last element, which by then holds the old
  top; on a single node it drops that node. \<^verbatim>\<open>pq.top()\<close> is the first element.
\<close>

definition pq_push :: "HuffmanNode \<Rightarrow> HuffmanNode list \<Rightarrow> HuffmanNode list" where
  "pq_push n c = push_heap (c @ [n]) (length c) 0 n"

definition pq_pop :: "HuffmanNode list \<Rightarrow> HuffmanNode list" where
  "pq_pop c =
     (if length c > 1 then adjust_heap (butlast c) 0 (length c - 1) (last c) else butlast c)"

definition pq_top :: "HuffmanNode list \<Rightarrow> HuffmanNode" where
  "pq_top c = hd c"

subsection \<open>buildEncodingTree\<close>

text \<open>The first loop: one leaf for each key, pushed in the order of \<^verbatim>\<open>map.keys()\<close>.\<close>

fun push_leaves :: "hashmapF \<Rightarrow> int list \<Rightarrow> HuffmanNode list \<Rightarrow> HuffmanNode list" where
  "push_leaves m [] pq = pq"
| "push_leaves m (key # allChars) pq =
     push_leaves m allChars (pq_push (Node key (get m key) Null Null) pq)"

text \<open>
  The second loop, \<^verbatim>\<open>while (pq.size() > 1)\<close>: pop the first node; if the new top is
  not \<^verbatim>\<open>nullptr\<close>, pop it as the second node and push their parent, whose count is the
  sum of the two counts as an \<^verbatim>\<open>int\<close>.
\<close>

function merge_nodes :: "HuffmanNode list \<Rightarrow> HuffmanNode list" where
  "merge_nodes pq =
     (if length pq > 1 then
        (let firstNode = pq_top pq;
             pq1 = pq_pop pq
         in if pq_top pq1 \<noteq> Null then
              (let secondNode = pq_top pq1;
                   pq2 = pq_pop pq1;
                   sumNode = Node NOT_A_CHAR (int32 (node_count firstNode + node_count secondNode))
                               firstNode secondNode
               in merge_nodes (pq_push sumNode pq2))
            else merge_nodes pq1)
      else pq)"
  by pat_completeness auto
termination
proof -
  have up: "length (push_heap c h t v) = length c" for c h t v
    by (induction c h t v rule: push_heap.induct) (subst push_heap.simps, simp add: Let_def)
  have down: "length (fst (adjust_heap_loop c h len)) = length c" for c h len
    by (induction c h len rule: adjust_heap_loop.induct)
      (subst adjust_heap_loop.simps, simp add: Let_def)
  have "length (adjust_heap c h len v) = length c" for c h len v
    using down [of c h len] by (cases "adjust_heap_loop c h len") (simp add: adjust_heap_def up)
  then have pop: "length (pq_pop c) = length c - 1" for c
    by (simp add: pq_pop_def)
  have push: "length (pq_push n c) = Suc (length c)" for n c
    by (simp add: pq_push_def up)
  show ?thesis
    by (relation "measure length") (auto simp: push pop)
qed

declare merge_nodes.simps [simp del]

definition buildEncodingTree :: "hashmapF \<Rightarrow> error + HuffmanNode" where
  "buildEncodingTree m =
     (let allChars = keys m;
          pq = merge_nodes (push_leaves m allChars [])
      in if pq = [] then Inl empty_queue else Inr (pq_top pq))"

subsection \<open>buildEncodingMap\<close>

text \<open>
  \<^verbatim>\<open>hashmapE\<close> is \<^verbatim>\<open>unordered_map<int, string>\<close>; \<^verbatim>\<open>emplace\<close> leaves an entry that is
  already there as it is.
\<close>

type_synonym hashmapE = "int \<rightharpoonup> string"

definition emplace :: "hashmapE \<Rightarrow> int \<Rightarrow> string \<Rightarrow> hashmapE" where
  "emplace em k v = (if em k = None then em(k \<mapsto> v) else em)"

fun buildEncodingMap_helper :: "HuffmanNode \<Rightarrow> hashmapE \<Rightarrow> string \<Rightarrow> error + hashmapE" where
  "buildEncodingMap_helper Null encodingMap str = Inl null_pointer"
| "buildEncodingMap_helper (Node ch cnt z1 o1) encodingMap str =
     (if ch \<noteq> NOT_A_CHAR then Inr (emplace encodingMap ch str)
      else (let str1 = str @ ''0'' in
            case buildEncodingMap_helper z1 encodingMap str1 of
              Inl e \<Rightarrow> Inl e
            | Inr em1 \<Rightarrow>
                (let str2 = take (length str1 - 1) str1;
                     str3 = str2 @ ''1''
                 in buildEncodingMap_helper o1 em1 str3)))"

definition buildEncodingMap :: "HuffmanNode \<Rightarrow> error + hashmapE" where
  "buildEncodingMap tree = buildEncodingMap_helper tree Map.empty []"

subsection \<open>encode\<close>

text \<open>
  Modelled from the spec: the bit sink \<^verbatim>\<open>ofbitstream\<close> of bitstream.h, which is not part
  of the sources at hand. It accepts single bits in order and pads the last byte with
  zeros. Here it is the frequency header written with \<^verbatim>\<open><<\<close> and the bits written with
  \<^verbatim>\<open>writeBit\<close>, oldest first; closing the stream stores both under the file's name, the
  bits padded with zeros to a whole number of bytes. What an \<^verbatim>\<open>ofbitstream\<close> does when it
  cannot create its file is not known from the sources at hand; the model takes it that the
  compressed file can be created.
\<close>

type_synonym ofbitstream = "hashmapF \<times> bool list"

definition writeBit :: "ofbitstream \<Rightarrow> bool \<Rightarrow> ofbitstream" where
  "writeBit out b = (fst out, snd out @ [b])"

definition write_header :: "ofbitstream \<Rightarrow> hashmapF \<Rightarrow> ofbitstream" where
  "write_header out m = (m, snd out)"

definition pad_bits :: "bool list \<Rightarrow> bool list" where
  "pad_bits bs = bs @ replicate ((8 - length bs mod 8) mod 8) False"

definition close_ofbitstream :: "filesystem \<Rightarrow> string \<Rightarrow> ofbitstream \<Rightarrow> filesystem" where
  "close_ofbitstream fs name out = fs\<lparr>huf := (huf fs)(name \<mapsto> (fst out, pad_bits (snd out)))\<rparr>"

text \<open>The loop over the characters of one code: \<^verbatim>\<open>for (char &bit : encode)\<close>.\<close>

fun write_code :: "string \<Rightarrow> ofbitstream \<Rightarrow> int \<Rightarrow> ofbitstream \<times> int" where
  "write_code [] out sz = (out, sz)"
| "write_code (b # code) out sz =
     (let out1 = (if b = CHR ''0'' then writeBit out False else out);
          out2 = (if b = CHR ''1'' then writeBit out1 True else out1)
      in write_code code out2 (int32 (sz + 1)))"

text \<open>The loop \<^verbatim>\<open>while (input.get(cur))\<close> of \<^verbatim>\<open>encode\<close>, over the characters not read yet.\<close>

fun encode_symbols ::
  "string \<Rightarrow> hashmapE \<Rightarrow> ofbitstream \<Rightarrow> int \<Rightarrow> string \<Rightarrow> error + (string \<times> ofbitstream \<times> int)" where
  "encode_symbols [] encodingMap out sz buildString = Inr (buildString, out, sz)"
| "encode_symbols (cur # rest) encodingMap out sz buildString =
     (case encodingMap (char_to_int cur) of
        None \<Rightarrow> Inl out_of_range
      | Some code \<Rightarrow>
          (case write_code code out sz of
             (out1, sz1) \<Rightarrow> encode_symbols rest encodingMap out1 sz1 (buildString @ code)))"

text \<open>
  \<^verbatim>\<open>encode(input, encodingMap, output, size, makeFile)\<close> returns the string, and the model
  returns with it the output stream and \<^verbatim>\<open>size\<close> as the call leaves them (both are
  passed by reference).
\<close>

definition encode ::
  "ifstream \<Rightarrow> hashmapE \<Rightarrow> ofbitstream \<Rightarrow> int \<Rightarrow> bool \<Rightarrow> error + (string \<times> ofbitstream \<times> int)" where
  "encode input encodingMap out sz makeFile =
     (if makeFile then
        (case encode_symbols (unread input) encodingMap out sz [] of
           Inl e \<Rightarrow> Inl e
         | Inr (buildString, out1, sz1) \<Rightarrow>
             (case encodingMap PSEUDO_EOF of
                None \<Rightarrow> Inl out_of_range
              | Some eof \<Rightarrow>
                  (case write_code eof out1 sz1 of
                     (out2, sz2) \<Rightarrow> Inr (buildString @ eof, out2, sz2))))
      else Inr ([], out, sz))"

subsection \<open>decode\<close>

text \<open>
  Modelled from the spec: the bit source \<^verbatim>\<open>ifbitstream\<close> of bitstream.h, which is not
  part of the sources at hand. It yields single bits in order and has an end-of-file
  indicator. Here it is, behind the header, the bits not read yet (padding included) and
  the end-of-file flag. \<^verbatim>\<open>readBit\<close> yields 0 or 1, or -1 when no bit is left, and only
  then sets the flag, as a failed read of a C++ stream does.
\<close>

type_synonym ifbitstream = "bool list \<times> bool"

definition readBit :: "ifbitstream \<Rightarrow> int \<times> ifbitstream" where
  "readBit input =
     (if snd input then (- 1, input)
      else case fst input of
             [] \<Rightarrow> (- 1, ([], True))
           | b # bs \<Rightarrow> (if b then 1 else 0, (bs, False)))"

text \<open>
  The loop \<^verbatim>\<open>while (!input.eof())\<close> of \<^verbatim>\<open>decode\<close>. \<^verbatim>\<open>output\<close> is the \<^verbatim>\<open>ofstream\<close>, as
  the characters put into it so far.
\<close>

function decode_loop ::
  "ifbitstream \<Rightarrow> HuffmanNode \<Rightarrow> HuffmanNode \<Rightarrow> string \<Rightarrow> string \<Rightarrow> error + (string \<times> string)" where
  "decode_loop input encodingTree curNode buildString output =
     (if snd input then Inr (buildString, output)
      else case curNode of
        Null \<Rightarrow> Inl null_pointer
      | Node ch cnt z1 o1 \<Rightarrow>
          if ch = PSEUDO_EOF then Inr (buildString, output)
          else
            (let buildString1 = (if ch \<noteq> NOT_A_CHAR then buildString @ [int_to_char ch] else buildString);
                 output1 = (if ch \<noteq> NOT_A_CHAR then output @ [int_to_char ch] else output);
                 curNode1 = (if ch \<noteq> NOT_A_CHAR then encodingTree else curNode)
             in case readBit input of
                  (b, input1) \<Rightarrow>
                    if b = 0 then
                      (case curNode1 of
                         Null \<Rightarrow> Inl null_pointer
                       | Node ch1 cnt1 z2 o2 \<Rightarrow> decode_loop input1 encodingTree z2 buildString1 output1)
                    else if b = 1 then
                      (case curNode1 of
                         Null \<Rightarrow> Inl null_pointer
                       | Node ch1 cnt1 z2 o2 \<Rightarrow> decode_loop input1 encodingTree o2 buildString1 output1)
                    else decode_loop input1 encodingTree curNode1 buildString1 output1))"
  by pat_completeness auto
termination
  by (relation "measure (\<lambda>(input, t, c, b, out). length (fst input) + (if snd input then 0 else 1))")
     (auto simp: readBit_def split: list.splits if_splits)

declare decode_loop.simps [simp del]

definition decode :: "ifbitstream \<Rightarrow> HuffmanNode \<Rightarrow> string \<Rightarrow> error + (string \<times> string)" where
  "decode input encodingTree output = decode_loop input encodingTree encodingTree [] output"

subsection \<open>compress and decompress\<close>

definition compress :: "filesystem \<Rightarrow> string \<Rightarrow> error + (string \<times> filesystem)" where
  "compress fs filename =
     (let inFile = open_ifstream fs filename;
          isFile = is_open inFile;
          m = buildFrequencyMap fs filename isFile []
      in case buildEncodingTree m of
           Inl e \<Rightarrow> Inl e
         | Inr root \<Rightarrow>
             (case buildEncodingMap root of
                Inl e \<Rightarrow> Inl e
              | Inr encodingMap \<Rightarrow>
                  (let input = open_ifstream fs filename;
                       out0 = write_header ([], []) m
                   in case encode input encodingMap out0 0 True of
                        Inl e \<Rightarrow> Inl e
                      | Inr (encodedMessage, out1, sz) \<Rightarrow>
                          Inr (encodedMessage, close_ofbitstream fs (filename @ ''.huf'') out1))))"

text \<open>
  \<^verbatim>\<open>std::string::find\<close> stored into an \<^verbatim>\<open>int\<close>: the position of the first occurrence,
  or -1. \<^verbatim>\<open>substr(pos, n)\<close> throws when \<^verbatim>\<open>pos\<close> is past the end, which a position of -1
  is once it is converted to \<^verbatim>\<open>size_t\<close>.
\<close>

fun find_str :: "string \<Rightarrow> string \<Rightarrow> int" where
  "find_str [] pat = (if pat = [] then 0 else - 1)"
| "find_str (c # s) pat =
     (if prefix pat (c # s) then 0
      else (let r = find_str s pat in if r < 0 then - 1 else r + 1))"

definition substr :: "string \<Rightarrow> int \<Rightarrow> int \<Rightarrow> error + string" where
  "substr s pos n =
     (if pos < 0 \<or> int (length s) < pos then Inl out_of_range
      else Inr (if n < 0 then drop (nat pos) s else take (nat n) (drop (nat pos) s)))"

text \<open>
  Opening a compressed file and reading its header with \<^verbatim>\<open>>>\<close>: the frequency map as it
  is read back and the stream of the bits behind the header. A file that is not there
  leaves the map empty.
\<close>

definition open_ifbitstream :: "filesystem \<Rightarrow> string \<Rightarrow> hashmapF \<times> ifbitstream" where
  "open_ifbitstream fs filename =
     (case huf fs filename of
        None \<Rightarrow> ([], ([], False))
      | Some (m, bits) \<Rightarrow> (replay fs m, (bits, False)))"

text \<open>
  Closing the \<^verbatim>\<open>ofstream\<close> of \<^verbatim>\<open>decompress\<close>: the characters put into it become the
  content of the file when a file of that name can be created, and are lost otherwise.
\<close>

definition close_ofstream :: "filesystem \<Rightarrow> string \<Rightarrow> string \<Rightarrow> filesystem" where
  "close_ofstream fs name output =
     (if writable fs name then fs\<lparr>plain := (plain fs)(name \<mapsto> output)\<rparr> else fs)"

text \<open>
  The string parsing at the head of \<^verbatim>\<open>decompress\<close> that names the output file: the name
  is cut at the first \<^verbatim>\<open>".huf"\<close>, what is left is split at its first \<^verbatim>\<open>"."\<close> into name
  and extension, and \<^verbatim>\<open>"_unc"\<close> goes between the two.
\<close>

definition output_name :: "string \<Rightarrow> error + string" where
  "output_name filename =
     (let pos = find_str filename ''.huf'';
          filename1 = (if pos \<ge> 0 then take (nat pos) filename else filename);
          pos1 = find_str filename1 ''.''
      in case substr filename1 pos1 (int (length filename1) - pos1) of
           Inl e \<Rightarrow> Inl e
         | Inr ext \<Rightarrow>
             (case substr filename1 0 pos1 of
                Inl e \<Rightarrow> Inl e
              | Inr filename2 \<Rightarrow> Inr (filename2 @ ''_unc'' @ ext)))"

definition decompress :: "filesystem \<Rightarrow> string \<Rightarrow> error + (string \<times> filesystem)" where
  "decompress fs filename =
     (let opened = open_ifbitstream fs filename
      in case output_name filename of
           Inl e \<Rightarrow> Inl e
         | Inr unc \<Rightarrow>
             (let frequencyMap = fst opened;
                  input = snd opened
              in case buildEncodingTree frequencyMap of
                   Inl e \<Rightarrow> Inl e
                 | Inr root \<Rightarrow>
                     (case decode input root [] of
                        Inl e \<Rightarrow> Inl e
                      | Inr (decodedMessage, output) \<Rightarrow>
                          Inr (decodedMessage, close_ofstream fs unc output))))"

section \<open>Notions of the specification\<close>

text \<open>
  The node invariant of the data model: every node is a leaf (its character is not the
  internal marker) without children, or an internal node (its character is the internal
  marker) with both children. A full tree is a node, not \<open>Null\<close>, below which the
  invariant holds everywhere.
\<close>

fun node_invariant :: "HuffmanNode \<Rightarrow> bool" where
  "node_invariant Null = True"
| "node_invariant (Node ch cnt z1 o1) =
     (((ch \<noteq> NOT_A_CHAR \<and> z1 = Null \<and> o1 = Null) \<or> (ch = NOT_A_CHAR \<and> z1 \<noteq> Null \<and> o1 \<noteq> Null))
      \<and> node_invariant z1 \<and> node_invariant o1)"

definition full_tree :: "HuffmanNode \<Rightarrow> bool" where
  "full_tree t = (t \<noteq> Null \<and> node_invariant t)"

text \<open>
  The leaves of a tree from left to right, each with its character and count; a node whose
  character is not the internal marker counts as a leaf, as it does for
  \<^verbatim>\<open>_buildEncodingMap\<close> and \<^verbatim>\<open>decode\<close>.
\<close>

fun leaves :: "HuffmanNode \<Rightarrow> (int \<times> int) list" where
  "leaves Null = []"
| "leaves (Node ch cnt z1 o1) = (if ch \<noteq> NOT_A_CHAR then [(ch, cnt)] else leaves z1 @ leaves o1)"

text \<open>
  The path from the root to the leftmost leaf of a symbol, written with the characters
  \<^verbatim>\<open>'0'\<close> (to \<^verbatim>\<open>zero\<close>) and \<^verbatim>\<open>'1'\<close> (to \<^verbatim>\<open>one\<close>); its length is the depth of the symbol.
\<close>

fun path :: "HuffmanNode \<Rightarrow> int \<Rightarrow> string option" where
  "path Null k = None"
| "path (Node ch cnt z1 o1) k =
     (if ch \<noteq> NOT_A_CHAR then (if ch = k then Some [] else None)
      else (case path z1 k of
              Some p \<Rightarrow> Some (CHR ''0'' # p)
            | None \<Rightarrow> (case path o1 k of Some p \<Rightarrow> Some (CHR ''1'' # p) | None \<Rightarrow> None)))"

text \<open>
  The bits that \<^verbatim>\<open>encode\<close> writes for the characters of a code string (a character
  other than \<^verbatim>\<open>'0'\<close> and \<^verbatim>\<open>'1'\<close> writes none), and the concatenated codes of the
  characters of a source under a code table.
\<close>

definition emitted_bits :: "string \<Rightarrow> bool list" where
  "emitted_bits s = map (\<lambda>b. b = CHR ''1'') (filter (\<lambda>b. b = CHR ''0'' \<or> b = CHR ''1'') s)"

definition code_string :: "hashmapE \<Rightarrow> string \<Rightarrow> string" where
  "code_string em s = concat (map (\<lambda>cur. case em (char_to_int cur) of Some code \<Rightarrow> code | None \<Rightarrow> []) s)"

text \<open>
  The value of an \<^verbatim>\<open>int\<close> that has been incremented \<open>n\<close> times with \<^verbatim>\<open>++\<close>.
\<close>

definition incremented :: "int \<Rightarrow> nat \<Rightarrow> int" where
  "incremented sz n = (if n = 0 then sz else int32 (sz + int n))"

text \<open>
  The concatenated codes of a list of symbols in a tree, and the bits of a code cut short:
  bits that lead from a node through internal nodes to an internal node, without reaching
  a leaf.
\<close>

definition symbol_codes :: "HuffmanNode \<Rightarrow> int list \<Rightarrow> string" where
  "symbol_codes t syms = concat (map (\<lambda>k. case path t k of Some p \<Rightarrow> p | None \<Rightarrow> []) syms)"

fun stays_inner :: "HuffmanNode \<Rightarrow> bool list \<Rightarrow> bool" where
  "stays_inner Null q = False"
| "stays_inner (Node ch cnt z1 o1) [] = (ch = NOT_A_CHAR)"
| "stays_inner (Node ch cnt z1 o1) (b # q) = (ch = NOT_A_CHAR \<and> stays_inner (if b then o1 else z1) q)"

text \<open>
  The depth of a symbol in a tree is the length of its path; the weighted path length of
  a tree for a frequency model is the sum, over the entries of the model, of count times
  depth. A code tree for a frequency model is a full tree whose leaves carry exactly the
  keys of the model, each once; the counts stored in its nodes do not matter.
\<close>

definition depth :: "HuffmanNode \<Rightarrow> int \<Rightarrow> nat" where
  "depth t k = (case path t k of Some p \<Rightarrow> length p | None \<Rightarrow> 0)"

definition weighted_path_length :: "hashmapF \<Rightarrow> HuffmanNode \<Rightarrow> int" where
  "weighted_path_length m t = sum_list (map (\<lambda>(k, c). c * int (depth t k)) m)"

definition code_tree_for :: "hashmapF \<Rightarrow> HuffmanNode \<Rightarrow> bool" where
  "code_tree_for m u = (full_tree u \<and> mset (map fst (leaves u)) = mset (keys m))"

text \<open>
  For the proof of optimality: the sum of the counts of the leaves of a tree, the sum of
  these sums over all nodes that have a parent (the cost that the merges of the tree add
  up to), the bare shape of a full tree with the depths of its tips and its height, and
  the cost of a pairing of weights with depths.
\<close>

fun leaf_weight :: "HuffmanNode \<Rightarrow> int" where
  "leaf_weight Null = 0"
| "leaf_weight (Node ch cnt z1 o1) = (if ch \<noteq> NOT_A_CHAR then cnt else leaf_weight z1 + leaf_weight o1)"

fun merge_cost :: "HuffmanNode \<Rightarrow> int" where
  "merge_cost Null = 0"
| "merge_cost (Node ch cnt z1 o1) =
     (if ch \<noteq> NOT_A_CHAR then 0
      else leaf_weight z1 + merge_cost z1 + leaf_weight o1 + merge_cost o1)"

datatype shape = Tip | Fork shape shape

fun tip_depths :: "shape \<Rightarrow> nat multiset" where
  "tip_depths Tip = {#0#}"
| "tip_depths (Fork l r) = image_mset Suc (tip_depths l + tip_depths r)"

fun tallest :: "shape \<Rightarrow> nat" where
  "tallest Tip = 0"
| "tallest (Fork l r) = Suc (max (tallest l) (tallest r))"

definition pair_cost :: "(int \<times> nat) multiset \<Rightarrow> int" where
  "pair_cost P = sum_mset (image_mset (\<lambda>(w, d). w * int d) P)"

fun shape_of :: "HuffmanNode \<Rightarrow> shape" where
  "shape_of Null = Tip"
| "shape_of (Node ch cnt z1 o1) = (if ch \<noteq> NOT_A_CHAR then Tip else Fork (shape_of z1) (shape_of o1))"

text \<open>
  For the priority queue: a vector is a heap when no element has a count below that of its
  parent; a vector is a heap around a hole when this holds for every pair of parent and
  child that does not involve the hole, and the children of the hole have no count below
  that of the parent of the hole.
\<close>

definition is_heap :: "HuffmanNode list \<Rightarrow> bool" where
  "is_heap c = (\<forall>i<length c. 0 < i \<longrightarrow> node_count (c ! ((i - 1) div 2)) \<le> node_count (c ! i))"

definition hole_heap :: "HuffmanNode list \<Rightarrow> nat \<Rightarrow> bool" where
  "hole_heap c h =
     ((\<forall>i<length c. 0 < i \<and> i \<noteq> h \<and> (i - 1) div 2 \<noteq> h
          \<longrightarrow> node_count (c ! ((i - 1) div 2)) \<le> node_count (c ! i))
      \<and> (\<forall>i<length c. 0 < i \<and> (i - 1) div 2 = h \<and> 0 < h
          \<longrightarrow> node_count (c ! ((h - 1) div 2)) \<le> node_count (c ! i)))"

section \<open>Properties\<close>

subsection \<open>Characters and the hashmap\<close>

lemma char_to_int_range: "- 128 \<le> char_to_int c \<and> char_to_int c < 128"
proof -
  have "of_char c < (256::int)"
    by (metis of_char_mod_256 pos_mod_bound zero_less_numeral)
  moreover have "(0::int) \<le> of_char c"
    by (metis of_char_mod_256 pos_mod_sign zero_less_numeral)
  ultimately show ?thesis by (simp add: char_to_int_def)
qed

lemma char_to_int_not_reserved [simp]:
  "char_to_int c \<noteq> PSEUDO_EOF" "char_to_int c \<noteq> NOT_A_CHAR"
  "PSEUDO_EOF \<noteq> char_to_int c" "NOT_A_CHAR \<noteq> char_to_int c"
  using char_to_int_range [of c] by (auto simp: PSEUDO_EOF_def NOT_A_CHAR_def)

lemma int_to_char_inverse [simp]: "int_to_char (char_to_int c) = c"
proof -
  have "char_of (of_char c - (256::int)) = char_of ((of_char c - (256::int)) mod 256)"
    by (simp only: char_of_mod_256)
  also have "\<dots> = char_of ((of_char c :: int) mod 256)"
    by (simp add: mod_diff_right_eq [symmetric])
  finally show ?thesis
    by (simp add: int_to_char_def char_to_int_def)
qed

lemma char_to_int_inj [simp]: "char_to_int c = char_to_int d \<longleftrightarrow> c = d"
  by (metis int_to_char_inverse)

lemma map_of_put: "map_of (put m k v) = (map_of m)(k \<mapsto> v)"
  by (induction m) (auto simp: fun_eq_iff)

lemma get_put: "get (put m k v) k' = (if k' = k then v else get m k')"
  by (simp add: get_def map_of_put)

lemma containsKey_put: "containsKey (put m k v) k' \<longleftrightarrow> k' = k \<or> containsKey m k'"
  by (simp add: containsKey_def map_of_put)

lemma sum_put:
  "sum_list (map snd (put m k v)) = sum_list (map snd m) - get m k + v"
  by (induction m) (auto simp: get_def)

lemma get_absent: "\<not> containsKey m k \<Longrightarrow> get m k = 0"
  by (simp add: get_def containsKey_def)

lemma int32_fits: "- 2147483648 \<le> x \<Longrightarrow> x \<le> 2147483647 \<Longrightarrow> int32 x = x"
  by (simp add: int32_def)

lemma int32_add_left [simp]: "int32 (int32 x + y) = int32 (x + y)"
proof -
  have "(int32 x + y + 2147483648) mod 4294967296
        = ((x + 2147483648) mod 4294967296 + y) mod 4294967296"
    unfolding int32_def by (simp add: algebra_simps)
  also have "\<dots> = (x + 2147483648 + y) mod 4294967296"
    by (rule mod_add_left_eq)
  also have "\<dots> = (x + y + 2147483648) mod 4294967296"
    by (simp add: algebra_simps)
  finally show ?thesis
    by (simp add: int32_def)
qed

lemma int32_add_right [simp]: "int32 (y + int32 x) = int32 (y + x)"
  using int32_add_left [of x y] by (simp add: add.commute)

lemma get_count_symbol:
  "get (count_symbol m c) k = (if k = char_to_int c then int32 (get m k + 1) else get m k)"
  by (simp add: count_symbol_def get_put get_absent int32_def)

lemma containsKey_count_symbol:
  "containsKey (count_symbol m c) k \<longleftrightarrow> k = char_to_int c \<or> containsKey m k"
  by (simp add: count_symbol_def containsKey_put)

lemma sum_count_symbol:
  "- 2147483648 \<le> get m (char_to_int c) + 1 \<Longrightarrow> get m (char_to_int c) + 1 \<le> 2147483647 \<Longrightarrow>
   sum_list (map snd (count_symbol m c)) = sum_list (map snd m) + 1"
  by (simp add: count_symbol_def sum_put get_absent int32_fits)

lemma get_count_symbols:
  "get (count_symbols s m) k =
     (if k \<in> char_to_int ` set s then int32 (get m k + int (count_list (map char_to_int s) k))
      else get m k)"
proof (induction s arbitrary: m)
  case Nil
  show ?case by simp
next
  case (Cons c s)
  have absent: "count_list (map char_to_int s) k = 0" if "k \<notin> char_to_int ` set s"
    using that by (simp add: count_list_0_iff)
  show ?case
    by (auto simp: Cons.IH get_count_symbol absent algebra_simps)
qed

lemma get_count_symbols_fits:
  assumes "- 2147483648 \<le> get m k"
    and "get m k + int (count_list (map char_to_int s) k) \<le> 2147483647"
  shows "get (count_symbols s m) k = get m k + int (count_list (map char_to_int s) k)"
proof (cases "k \<in> char_to_int ` set s")
  case True
  then show ?thesis
    using assms by (simp add: get_count_symbols int32_fits)
next
  case False
  then have "count_list (map char_to_int s) k = 0"
    by (simp add: count_list_0_iff)
  with False show ?thesis
    by (simp add: get_count_symbols)
qed

lemma containsKey_count_symbols:
  "containsKey (count_symbols s m) k \<longleftrightarrow> k \<in> char_to_int ` set s \<or> containsKey m k"
  by (induction s arbitrary: m) (auto simp: containsKey_count_symbol)

lemma sum_count_symbols:
  "\<forall>k. - 2147483648 \<le> get m k \<and> get m k + int (count_list (map char_to_int s) k) \<le> 2147483647 \<Longrightarrow>
   sum_list (map snd (count_symbols s m)) = sum_list (map snd m) + int (length s)"
proof (induction s arbitrary: m)
  case Nil
  show ?case by simp
next
  case (Cons c s)
  let ?k = "char_to_int c"
  from Cons.prems have low: "- 2147483648 \<le> get m k" and
    high: "get m k + int (count_list (map char_to_int (c # s)) k) \<le> 2147483647" for k
    by simp_all
  have one: "get m ?k + 1 \<le> 2147483647"
    using high [of ?k] by simp
  have step: "get (count_symbol m c) k = get m k + (if k = ?k then 1 else 0)" for k
    using low [of ?k] one by (simp add: get_count_symbol int32_fits)
  have "\<forall>k. - 2147483648 \<le> get (count_symbol m c) k
            \<and> get (count_symbol m c) k + int (count_list (map char_to_int s) k) \<le> 2147483647"
  proof
    fix k
    show "- 2147483648 \<le> get (count_symbol m c) k
            \<and> get (count_symbol m c) k + int (count_list (map char_to_int s) k) \<le> 2147483647"
      using low [of k] high [of k] by (auto simp: step split: if_splits)
  qed
  then have "sum_list (map snd (count_symbols s (count_symbol m c)))
             = sum_list (map snd (count_symbol m c)) + int (length s)"
    by (rule Cons.IH)
  also have "sum_list (map snd (count_symbol m c)) = sum_list (map snd m) + 1"
    using low [of ?k] one by (intro sum_count_symbol) simp_all
  finally show ?case
    by simp
qed

text \<open>The same character over and over: its count is the number of repetitions as an \<^verbatim>\<open>int\<close>.\<close>

lemma count_symbols_again:
  "count_symbols (replicate n c) [(char_to_int c, v)]
     = [(char_to_int c, if n = 0 then v else int32 (v + int n))]"
proof (induction n arbitrary: v)
  case 0
  show ?case by simp
next
  case (Suc n)
  have "count_symbol [(char_to_int c, v)] c = [(char_to_int c, int32 (v + 1))]"
    by (simp add: count_symbol_def containsKey_def get_def)
  then show ?case
    by (simp add: Suc.IH algebra_simps)
qed

lemma count_symbols_replicate:
  "count_symbols (replicate (Suc n) c) [] = [(char_to_int c, int32 (1 + int n))]"
proof -
  have "count_symbol [] c = [(char_to_int c, 1)]"
    by (simp add: count_symbol_def containsKey_def)
  then show ?thesis
    by (simp add: count_symbols_again int32_def)
qed

lemma keys_put_eq:
  "keys (put m k v) = (if k \<in> set (keys m) then keys m else keys m @ [k])"
  by (induction m) (force simp: keys_def)+

lemma containsKey_Nil [simp]: "\<not> containsKey [] k"
  by (simp add: containsKey_def)


lemma distinct_keys_put: "distinct (keys m) \<Longrightarrow> distinct (keys (put m k v))"
  by (simp add: keys_put_eq)

lemma distinct_keys_count_symbols:
  "distinct (keys m) \<Longrightarrow> distinct (keys (count_symbols s m))"
  by (induction s arbitrary: m) (auto simp: count_symbol_def distinct_keys_put)


lemma buildFrequencyMap_source:
  assumes "(isFile \<and> plain fs filename = Some S) \<or> (\<not> isFile \<and> filename = S)"
  shows "buildFrequencyMap fs filename isFile m = put (count_symbols S m) PSEUDO_EOF 1"
  using assms by (auto simp: buildFrequencyMap_def open_ifstream_def unread_def)

subsection \<open>The frequency model\<close>

lemma count_list_replicate: "count_list (replicate n x) x = n"
  by (induction n) auto

lemma frequency_again:
  assumes "plain fs filename = Some (replicate (Suc n) c)"
  shows "buildFrequencyMap fs filename True []
         = [(char_to_int c, int32 (1 + int n)), (PSEUDO_EOF, 1)]"
proof -
  have "buildFrequencyMap fs filename True []
        = put (count_symbols (replicate (Suc n) c) []) PSEUDO_EOF 1"
    by (rule buildFrequencyMap_source) (simp add: assms)
  then show ?thesis
    by (simp only: count_symbols_replicate) simp
qed

text \<open>
  C6, as the code has it: for every input sequence \<open>S\<close> (the characters of the file when
  \<open>isFile\<close> holds, the characters of the name otherwise) in which no symbol occurs more
  than 2147483647 times, the counts of the frequency model that \<^verbatim>\<open>buildFrequencyMap\<close>
  builds in a fresh map add up to the length of \<open>S\<close> plus one, and for the empty input
  the model holds the sentinel with count 1 and nothing else.
\<close>

theorem buildFrequencyMap_sum:
  assumes "(isFile \<and> plain fs filename = Some S) \<or> (\<not> isFile \<and> filename = S)"
    and "\<forall>k. int (count_list (map char_to_int S) k) \<le> 2147483647"
  shows "sum_list (map snd (buildFrequencyMap fs filename isFile [])) = int (length S) + 1
       \<and> (S = [] \<longrightarrow> buildFrequencyMap fs filename isFile [] = [(PSEUDO_EOF, 1)])"
proof -
  have absent: "get (count_symbols S []) PSEUDO_EOF = 0"
    by (rule get_absent) (simp add: containsKey_count_symbols image_iff)
  have "\<forall>k. - 2147483648 \<le> get [] k
            \<and> get [] k + int (count_list (map char_to_int S) k) \<le> 2147483647"
    using assms(2) by (simp add: get_def)
  then have "sum_list (map snd (count_symbols S [])) = int (length S)"
    using sum_count_symbols [of "[]" S] by simp
  then show ?thesis
    unfolding buildFrequencyMap_source [OF assms(1)]
    by (auto simp: sum_put absent)
qed

theorem buildFrequencyMap_sum_witness:
  "sum_list (map snd (buildFrequencyMap
      \<lparr>plain = [''f'' \<mapsto> ''aab''], huf = Map.empty, writable = (\<lambda>name. True), replay = (\<lambda>m. m)\<rparr>
      ''f'' True [])) = 4
   \<and> sum_list (map snd (buildFrequencyMap
      \<lparr>plain = Map.empty, huf = Map.empty, writable = (\<lambda>name. True), replay = (\<lambda>m. m)\<rparr>
      ''aab'' False [])) = 4
   \<and> buildFrequencyMap
      \<lparr>plain = Map.empty, huf = Map.empty, writable = (\<lambda>name. True), replay = (\<lambda>m. m)\<rparr>
      [] False [] = [(PSEUDO_EOF, 1)]"
  using buildFrequencyMap_sum [of True
      "\<lparr>plain = [''f'' \<mapsto> ''aab''], huf = Map.empty, writable = (\<lambda>name. True), replay = (\<lambda>m. m)\<rparr>"
      "''f''" "''aab''"]
    buildFrequencyMap_sum [of False
      "\<lparr>plain = Map.empty, huf = Map.empty, writable = (\<lambda>name. True), replay = (\<lambda>m. m)\<rparr>"
      "''aab''" "''aab''"]
    buildFrequencyMap_sum [of False
      "\<lparr>plain = Map.empty, huf = Map.empty, writable = (\<lambda>name. True), replay = (\<lambda>m. m)\<rparr>"
      "[]" "[]"]
  by simp

text \<open>
  The claim C6 as the spec words it holds for every input sequence. For the file that
  repeats the character \<^verbatim>\<open>a\<close> 2147483648 times the count of \<^verbatim>\<open>a\<close> does not fit an
  \<^verbatim>\<open>int\<close>: the model built holds -2147483648 for \<^verbatim>\<open>a\<close> and 1 for the sentinel, and the
  counts add up to -2147483647, not to 2147483649.
\<close>

theorem buildFrequencyMap_sum_overflow:
  "length (replicate 2147483648 CHR ''a'') = 2147483648
   \<and> buildFrequencyMap
        \<lparr>plain = [''f'' \<mapsto> replicate 2147483648 CHR ''a''], huf = Map.empty,
         writable = (\<lambda>name. True), replay = (\<lambda>m. m)\<rparr> ''f'' True []
      = [(97, - 2147483648), (PSEUDO_EOF, 1)]
   \<and> sum_list (map snd (buildFrequencyMap
        \<lparr>plain = [''f'' \<mapsto> replicate 2147483648 CHR ''a''], huf = Map.empty,
         writable = (\<lambda>name. True), replay = (\<lambda>m. m)\<rparr> ''f'' True [])) = - 2147483647"
proof -
  let ?fs = "\<lparr>plain = [''f'' \<mapsto> replicate 2147483648 CHR ''a''], huf = Map.empty,
              writable = (\<lambda>name. True), replay = (\<lambda>m. m)\<rparr>"
  have "plain ?fs ''f'' = Some (replicate (Suc 2147483647) CHR ''a'')"
    by simp
  then have "buildFrequencyMap ?fs ''f'' True []
             = [(char_to_int CHR ''a'', int32 (1 + int 2147483647)), (PSEUDO_EOF, 1)]"
    by (rule frequency_again)
  then show ?thesis
    by (simp add: int32_def char_to_int_def)
qed

text \<open>
  C5, as the code has it: after \<^verbatim>\<open>buildFrequencyMap\<close> on the input sequence \<open>S\<close> the map
  holds the sentinel with count exactly 1, whatever it held for the sentinel on entry
  (\<^verbatim>\<open>put\<close> overwrites); every other key is present if it is a symbol of \<open>S\<close> or was
  present on entry; the count of a symbol of \<open>S\<close> is the \<^verbatim>\<open>int\<close> that its count on
  entry (0 when absent) plus its number of occurrences in \<open>S\<close> comes to, which is that sum
  as long as the sum is at most 2147483647; the count of any other key is as on entry; and
  no key is listed twice. For a fresh map this is: every distinct symbol of \<open>S\<close> that
  occurs at most 2147483647 times is mapped to its number of occurrences, the sentinel to 1.
\<close>

theorem buildFrequencyMap_counts:
  assumes "(isFile \<and> plain fs filename = Some S) \<or> (\<not> isFile \<and> filename = S)"
  shows "containsKey (buildFrequencyMap fs filename isFile m) PSEUDO_EOF
       \<and> get (buildFrequencyMap fs filename isFile m) PSEUDO_EOF = 1
       \<and> (\<forall>k. k \<noteq> PSEUDO_EOF \<longrightarrow>
             (containsKey (buildFrequencyMap fs filename isFile m) k
                \<longleftrightarrow> k \<in> char_to_int ` set S \<or> containsKey m k)
           \<and> get (buildFrequencyMap fs filename isFile m) k
               = (if k \<in> char_to_int ` set S
                  then int32 (get m k + int (count_list (map char_to_int S) k))
                  else get m k)
           \<and> (- 2147483648 \<le> get m k
                \<and> get m k + int (count_list (map char_to_int S) k) \<le> 2147483647
              \<longrightarrow> get (buildFrequencyMap fs filename isFile m) k
                    = get m k + int (count_list (map char_to_int S) k)))
       \<and> (distinct (keys m) \<longrightarrow> distinct (keys (buildFrequencyMap fs filename isFile m)))"
  unfolding buildFrequencyMap_source [OF assms]
  by (simp add: containsKey_put get_put get_count_symbols_fits containsKey_count_symbols
      distinct_keys_put distinct_keys_count_symbols)
    (simp add: get_count_symbols)

theorem buildFrequencyMap_counts_witness:
  "get (buildFrequencyMap
      \<lparr>plain = [''f'' \<mapsto> ''aab''], huf = Map.empty, writable = (\<lambda>name. True), replay = (\<lambda>m. m)\<rparr>
      ''f'' True []) PSEUDO_EOF = 1
   \<and> get (buildFrequencyMap
      \<lparr>plain = [''f'' \<mapsto> ''aab''], huf = Map.empty, writable = (\<lambda>name. True), replay = (\<lambda>m. m)\<rparr>
      ''f'' True []) 97 = 2
   \<and> get (buildFrequencyMap
      \<lparr>plain = [''f'' \<mapsto> ''aab''], huf = Map.empty, writable = (\<lambda>name. True), replay = (\<lambda>m. m)\<rparr>
      ''f'' True []) 98 = 1
   \<and> distinct (keys (buildFrequencyMap
      \<lparr>plain = [''f'' \<mapsto> ''aab''], huf = Map.empty, writable = (\<lambda>name. True), replay = (\<lambda>m. m)\<rparr>
      ''f'' True []))"
  using buildFrequencyMap_counts [of True
      "\<lparr>plain = [''f'' \<mapsto> ''aab''], huf = Map.empty, writable = (\<lambda>name. True), replay = (\<lambda>m. m)\<rparr>"
      "''f''" "''aab''" "[]"]
  by (simp add: get_def keys_def PSEUDO_EOF_def char_to_int_def int32_def)

text \<open>
  The claim C5 as the spec words it has the sentinel inserted additively when it is already
  present, and every symbol mapped to its number of occurrences. A map that holds count 5
  for the sentinel on entry holds count 1 on exit, not 6. And for the file that repeats
  the character \<^verbatim>\<open>a\<close> 2147483648 times, a fresh map holds -2147483648 for \<^verbatim>\<open>a\<close> on exit.
\<close>

theorem buildFrequencyMap_sentinel_overwritten:
  "get [(PSEUDO_EOF, 5)] PSEUDO_EOF = 5
   \<and> get (buildFrequencyMap
        \<lparr>plain = Map.empty, huf = Map.empty, writable = (\<lambda>name. True), replay = (\<lambda>m. m)\<rparr>
        [] False [(PSEUDO_EOF, 5)]) PSEUDO_EOF = 1
   \<and> count_list (replicate 2147483648 CHR ''a'') CHR ''a'' = 2147483648
   \<and> get (buildFrequencyMap
        \<lparr>plain = [''f'' \<mapsto> replicate 2147483648 CHR ''a''], huf = Map.empty,
         writable = (\<lambda>name. True), replay = (\<lambda>m. m)\<rparr> ''f'' True []) 97 = - 2147483648"
proof -
  let ?fs = "\<lparr>plain = [''f'' \<mapsto> replicate 2147483648 CHR ''a''], huf = Map.empty,
              writable = (\<lambda>name. True), replay = (\<lambda>m. m)\<rparr>"
  have "plain ?fs ''f'' = Some (replicate (Suc 2147483647) CHR ''a'')"
    by simp
  then have "buildFrequencyMap ?fs ''f'' True []
             = [(char_to_int CHR ''a'', int32 (1 + int 2147483647)), (PSEUDO_EOF, 1)]"
    by (rule frequency_again)
  then have big: "get (buildFrequencyMap ?fs ''f'' True []) 97 = - 2147483648"
    by (simp add: int32_def char_to_int_def get_def)
  have small: "get (buildFrequencyMap
        \<lparr>plain = Map.empty, huf = Map.empty, writable = (\<lambda>name. True), replay = (\<lambda>m. m)\<rparr>
        [] False [(PSEUDO_EOF, 5)]) PSEUDO_EOF = 1"
    by (simp add: buildFrequencyMap_def get_def)
  from small big show ?thesis
    by (simp add: get_def count_list_replicate)
qed

subsection \<open>The priority queue\<close>

lemma length_push_heap [simp]: "length (push_heap c h t v) = length c"
  by (induction c h t v rule: push_heap.induct) (subst push_heap.simps, simp add: Let_def)

lemma length_adjust_heap_loop [simp]: "length (fst (adjust_heap_loop c h len)) = length c"
  by (induction c h len rule: adjust_heap_loop.induct) (subst adjust_heap_loop.simps, simp add: Let_def)

lemma length_adjust_heap [simp]: "length (adjust_heap c h len v) = length c"
proof -
  have "length (fst (adjust_heap_loop c h len)) = length c"
    by simp
  then show ?thesis
    by (cases "adjust_heap_loop c h len") (simp add: adjust_heap_def)
qed

lemma length_pq_push [simp]: "length (pq_push n c) = Suc (length c)"
  by (simp add: pq_push_def)

lemma length_pq_pop [simp]: "length (pq_pop c) = length c - 1"
  by (simp add: pq_pop_def)

lemma mset_update_twice:
  assumes "h < length c" and "p < length c" and "p \<noteq> h"
  shows "mset (c[h := c ! p, p := v]) = mset (c[h := v])"
proof -
  have "mset (c[h := c ! p, p := v]) = add_mset v (mset (c[h := c ! p]) - {#c ! p#})"
    using assms by (simp add: mset_update)
  also have "mset (c[h := c ! p]) = add_mset (c ! p) (mset c - {#c ! h#})"
    using assms by (simp add: mset_update)
  finally show ?thesis
    using assms by (simp add: mset_update)
qed

lemma mset_push_heap:
  "h < length c \<Longrightarrow> mset (push_heap c h t v) = mset (c[h := v])"
proof (induction c h t v rule: push_heap.induct)
  case (1 c h t v)
  let ?p = "(h - 1) div 2"
  show ?case
  proof (cases "h > t \<and> compare (c ! ?p) v")
    case True
    then have p: "?p < h"
      by auto
    have "mset (push_heap c h t v) = mset (push_heap (c[h := c ! ?p]) ?p t v)"
      using True by (subst push_heap.simps) (simp add: Let_def)
    also have "\<dots> = mset (c[h := c ! ?p, ?p := v])"
      using True p "1.prems" by (subst "1.IH" [OF refl]) simp_all
    also have "\<dots> = mset (c[h := v])"
      using p "1.prems" by (intro mset_update_twice) simp_all
    finally show ?thesis .
  next
    case False
    then show ?thesis
      by (subst push_heap.simps) (auto simp: Let_def)
  qed
qed

lemma adjust_heap_loop_hole:
  "h < len \<Longrightarrow> len \<le> length c \<Longrightarrow>
   snd (adjust_heap_loop c h len) < len
   \<and> (\<forall>y. mset ((fst (adjust_heap_loop c h len))[snd (adjust_heap_loop c h len) := y]) = mset (c[h := y]))"
proof (induction c h len rule: adjust_heap_loop.induct)
  case (1 c h len)
  show ?case
  proof (cases "h < (len - 1) div 2")
    case True
    let ?sc = "2 * (h + 1)"
    let ?sc1 = "if compare (c ! ?sc) (c ! (?sc - 1)) then ?sc - 1 else ?sc"
    have sc: "?sc1 < len" "h < ?sc1"
      using True by auto
    have eq: "adjust_heap_loop c h len = adjust_heap_loop (c[h := c ! ?sc1]) ?sc1 len"
      using True by (subst adjust_heap_loop.simps) (simp add: Let_def)
    have IH: "snd (adjust_heap_loop (c[h := c ! ?sc1]) ?sc1 len) < len
       \<and> (\<forall>y. mset ((fst (adjust_heap_loop (c[h := c ! ?sc1]) ?sc1 len))
                       [snd (adjust_heap_loop (c[h := c ! ?sc1]) ?sc1 len) := y])
              = mset (c[h := c ! ?sc1, ?sc1 := y]))"
      using sc "1.prems" by (intro "1.IH" [OF True refl refl]) simp_all
    have "mset (c[h := c ! ?sc1, ?sc1 := y]) = mset (c[h := y])" for y
      using sc "1.prems" by (intro mset_update_twice) simp_all
    with IH show ?thesis
      unfolding eq by simp
  next
    case False
    then have "adjust_heap_loop c h len = (c, h)"
      by (subst adjust_heap_loop.simps) simp
    with "1.prems" show ?thesis
      by simp
  qed
qed

lemma mset_adjust_heap:
  assumes "h < len" and "len \<le> length c"
  shows "mset (adjust_heap c h len v) = mset (c[h := v])"
proof -
  obtain c1 h1 where s: "adjust_heap_loop c h len = (c1, h1)"
    by (cases "adjust_heap_loop c h len")
  from adjust_heap_loop_hole [OF assms] s have h1: "h1 < len" and
    m: "mset (c1[h1 := y]) = mset (c[h := y])" for y
    by simp_all
  have l: "length c1 = length c"
    using length_adjust_heap_loop [of c h len] s by simp
  show ?thesis
  proof (cases "len mod 2 = 0 \<and> h1 = (len - 2) div 2")
    case True
    let ?k = "2 * (h1 + 1) - 1"
    have k: "?k < len" "?k \<noteq> h1"
      using True h1 by presburger+
    have "adjust_heap c h len v = push_heap (c1[h1 := c1 ! ?k]) ?k h v"
      using True by (simp add: adjust_heap_def s)
    then have "mset (adjust_heap c h len v) = mset (c1[h1 := c1 ! ?k, ?k := v])"
      using k assms l by (simp add: mset_push_heap)
    also have "\<dots> = mset (c1[h1 := v])"
      using k h1 assms l by (intro mset_update_twice) simp_all
    finally show ?thesis
      by (simp add: m)
  next
    case False
    then have "adjust_heap c h len v = push_heap c1 h1 h v"
      by (auto simp: adjust_heap_def s)
    then show ?thesis
      using h1 assms l by (simp add: mset_push_heap m)
  qed
qed

lemma mset_pq_push [simp]: "mset (pq_push n c) = add_mset n (mset c)"
  by (simp add: pq_push_def mset_push_heap)

lemma mset_pq_pop: "c \<noteq> [] \<Longrightarrow> add_mset (hd c) (mset (pq_pop c)) = mset c"
proof -
  assume "c \<noteq> []"
  then obtain x xs where c: "c = x # xs"
    by (cases c) auto
  show ?thesis
  proof (cases xs rule: rev_cases)
    case Nil
    then show ?thesis
      by (simp add: c pq_pop_def)
  next
    case (snoc ys y)
    then have "pq_pop c = adjust_heap (x # ys) 0 (Suc (length ys)) y"
      by (simp add: c pq_pop_def butlast_append)
    then show ?thesis
      by (simp add: mset_adjust_heap c snoc)
  qed
qed

lemma set_pq_push [simp]: "set (pq_push n c) = insert n (set c)"
  using mset_pq_push [of n c] by (metis set_mset_add_mset_insert set_mset_mset)


lemma hole_heapD1:
  "hole_heap c h \<Longrightarrow> i < length c \<Longrightarrow> 0 < i \<Longrightarrow> i \<noteq> h \<Longrightarrow> (i - 1) div 2 \<noteq> h \<Longrightarrow>
   node_count (c ! ((i - 1) div 2)) \<le> node_count (c ! i)"
  by (simp add: hole_heap_def)

lemma hole_heapD2:
  "hole_heap c h \<Longrightarrow> i < length c \<Longrightarrow> 0 < i \<Longrightarrow> (i - 1) div 2 = h \<Longrightarrow> 0 < h \<Longrightarrow>
   node_count (c ! ((h - 1) div 2)) \<le> node_count (c ! i)"
  by (simp add: hole_heap_def)

lemma parent_less: "0 < i \<Longrightarrow> (i - 1) div 2 < (i::nat)"
  by presburger

lemma push_heap_heap:
  assumes "hole_heap c h" and "h < length c"
    and "\<forall>i<length c. 0 < i \<and> (i - 1) div 2 = h \<longrightarrow> node_count v \<le> node_count (c ! i)"
  shows "is_heap (push_heap c h 0 v)"
  using assms
proof (induction c h "0::nat" v rule: push_heap.induct)
  case (1 c h v)
  let ?p = "(h - 1) div 2"
  note hole = "1.prems"(1)
  note below = "1.prems"(3) [rule_format]
  show ?case
  proof (cases "h > 0 \<and> compare (c ! ?p) v")
    case True
    then have p: "?p < h" and gt: "node_count v < node_count (c ! ?p)"
      by (auto simp: compare_def)
    let ?c = "c[h := c ! ?p]"
    have at_h: "?c ! h = c ! ?p"
      using "1.prems"(2) by simp
    have other: "?c ! j = c ! j" if "j \<noteq> h" for j
      using that by simp
    have up: "node_count (c ! ((?p - 1) div 2)) \<le> node_count (c ! ?p)" if "0 < ?p"
    proof -
      have "(?p - 1) div 2 < ?p"
        using that by (rule parent_less)
      then have "(?p - 1) div 2 \<noteq> h"
        using p by simp
      with hole that p "1.prems"(2) show ?thesis
        by (intro hole_heapD1 [of c h ?p]) simp_all
    qed
    have sibling: "node_count (c ! ?p) \<le> node_count (c ! i)"
      if "i < length c" "0 < i" "(i - 1) div 2 = ?p" "i \<noteq> h" for i
    proof -
      have "node_count (c ! ((i - 1) div 2)) \<le> node_count (c ! i)"
        using hole that p by (intro hole_heapD1 [of c h i]) simp_all
      with that(3) show ?thesis
        by simp
    qed
    have "hole_heap ?c ?p"
      unfolding hole_heap_def
    proof (intro conjI allI impI)
      fix i
      assume len: "i < length ?c" and i: "0 < i \<and> i \<noteq> ?p \<and> (i - 1) div 2 \<noteq> ?p"
      then have ih: "i \<noteq> h"
        by auto
      show "node_count (?c ! ((i - 1) div 2)) \<le> node_count (?c ! i)"
      proof (cases "(i - 1) div 2 = h")
        case True
        have "node_count (c ! ?p) \<le> node_count (c ! i)"
          using hole len i True \<open>h > 0 \<and> compare (c ! ?p) v\<close>
          by (intro hole_heapD2 [of c h i]) simp_all
        then show ?thesis
          by (simp only: True at_h other [OF ih])
      next
        case False
        have "node_count (c ! ((i - 1) div 2)) \<le> node_count (c ! i)"
          using hole len i ih False by (intro hole_heapD1 [of c h i]) simp_all
        then show ?thesis
          by (simp only: other [OF False] other [OF ih])
      qed
    next
      fix i
      assume len: "i < length ?c" and i: "0 < i \<and> (i - 1) div 2 = ?p \<and> 0 < ?p"
      have "(?p - 1) div 2 < ?p"
        using i by (intro parent_less) simp
      then have "(?p - 1) div 2 \<noteq> h"
        using p by simp
      then have top: "?c ! ((?p - 1) div 2) = c ! ((?p - 1) div 2)"
        by (rule other)
      show "node_count (?c ! ((?p - 1) div 2)) \<le> node_count (?c ! i)"
      proof (cases "i = h")
        case True
        show ?thesis
          unfolding top True at_h using i by (intro up) simp
      next
        case False
        have "node_count (c ! ((?p - 1) div 2)) \<le> node_count (c ! ?p)"
          using i by (intro up) simp
        also have "\<dots> \<le> node_count (c ! i)"
          using len i False by (intro sibling) simp_all
        finally show ?thesis
          unfolding top other [OF False] .
      qed
    qed
    moreover have "?p < length ?c"
      using p "1.prems"(2) by simp
    moreover have "\<forall>i<length ?c. 0 < i \<and> (i - 1) div 2 = ?p \<longrightarrow> node_count v \<le> node_count (?c ! i)"
    proof (intro allI impI)
      fix i
      assume len: "i < length ?c" and i: "0 < i \<and> (i - 1) div 2 = ?p"
      show "node_count v \<le> node_count (?c ! i)"
      proof (cases "i = h")
        case True
        show ?thesis
          unfolding True at_h using gt by simp
      next
        case False
        have "node_count (c ! ?p) \<le> node_count (c ! i)"
          using len i False by (intro sibling) simp_all
        with gt show ?thesis
          unfolding other [OF False] by simp
      qed
    qed
    ultimately have "is_heap (push_heap ?c ?p 0 v)"
      using True by (intro "1.hyps" [OF refl]) simp_all
    moreover have "push_heap c h 0 v = push_heap ?c ?p 0 v"
      using True by (subst push_heap.simps) (simp add: Let_def)
    ultimately show ?thesis
      by simp
  next
    case False
    have res: "push_heap c h 0 v = c[h := v]"
      using False by (subst push_heap.simps) (auto simp: Let_def)
    have "node_count (c[h := v] ! ((i - 1) div 2)) \<le> node_count (c[h := v] ! i)"
      if len: "i < length c" and pos: "0 < i" for i
    proof (cases "i = h")
      case True
      have "(h - 1) div 2 < h"
        using pos True by (intro parent_less) simp
      then have "c[h := v] ! ((h - 1) div 2) = c ! ?p"
        by simp
      moreover have "c[h := v] ! h = v"
        using "1.prems"(2) by simp
      moreover have "node_count (c ! ?p) \<le> node_count v"
        using False pos True by (auto simp: compare_def)
      ultimately show ?thesis
        unfolding True by simp
    next
      case ih: False
      show ?thesis
      proof (cases "(i - 1) div 2 = h")
        case True
        have "node_count v \<le> node_count (c ! i)"
          using len pos True by (intro below) simp_all
        then show ?thesis
          using ih True "1.prems"(2) by simp
      next
        case False
        have "node_count (c ! ((i - 1) div 2)) \<le> node_count (c ! i)"
          using hole len pos ih False by (intro hole_heapD1 [of c h i]) simp_all
        then show ?thesis
          using ih False by simp
      qed
    qed
    then show ?thesis
      unfolding res is_heap_def by simp
  qed
qed


lemma adjust_heap_loop_heap:
  assumes "hole_heap c h" and "h < len" and "len = length c"
  shows "hole_heap (fst (adjust_heap_loop c h len)) (snd (adjust_heap_loop c h len))
       \<and> snd (adjust_heap_loop c h len) < len
       \<and> (len - 1) div 2 \<le> snd (adjust_heap_loop c h len)"
  using assms
proof (induction c h len rule: adjust_heap_loop.induct)
  case (1 c h len)
  note hole = "1.prems"(1)
  note len = "1.prems"(3)
  show ?case
  proof (cases "h < (len - 1) div 2")
    case True
    let ?sc = "2 * (h + 1)"
    let ?k = "if compare (c ! ?sc) (c ! (?sc - 1)) then ?sc - 1 else ?sc"
    let ?c = "c[h := c ! ?k]"
    have k: "?k < len" "h < ?k" "(?k - 1) div 2 = h" "0 < ?k"
      using True by auto
    have children: "i = ?sc - 1 \<or> i = ?sc" if "0 < i" "(i - 1) div 2 = h" for i
      using that by presburger
    have least: "node_count (c ! ?k) \<le> node_count (c ! (?sc - 1))"
      "node_count (c ! ?k) \<le> node_count (c ! ?sc)"
      by (auto simp: compare_def)
    have at_h: "?c ! h = c ! ?k"
      using "1.prems"(2) len by simp
    have other: "?c ! j = c ! j" if "j \<noteq> h" for j
      using that by simp
    have "hole_heap ?c ?k"
      unfolding hole_heap_def
    proof (intro conjI allI impI)
      fix i
      assume il: "i < length ?c" and i: "0 < i \<and> i \<noteq> ?k \<and> (i - 1) div 2 \<noteq> ?k"
      show "node_count (?c ! ((i - 1) div 2)) \<le> node_count (?c ! i)"
      proof (cases "i = h")
        case True
        have "(h - 1) div 2 < h"
          using i True by (intro parent_less) simp
        then have "?c ! ((h - 1) div 2) = c ! ((h - 1) div 2)"
          by simp
        moreover have "node_count (c ! ((h - 1) div 2)) \<le> node_count (c ! ?k)"
          using hole k len i True by (intro hole_heapD2 [of c h ?k]) simp_all
        ultimately show ?thesis
          unfolding True at_h by simp
      next
        case ih: False
        show ?thesis
        proof (cases "(i - 1) div 2 = h")
          case True
          with i have "i = ?sc - 1 \<or> i = ?sc"
            by (intro children) simp_all
          with least have "node_count (c ! ?k) \<le> node_count (c ! i)"
            by auto
          then show ?thesis
            unfolding True at_h other [OF ih] .
        next
          case False
          have "node_count (c ! ((i - 1) div 2)) \<le> node_count (c ! i)"
            using hole il i ih False by (intro hole_heapD1 [of c h i]) simp_all
          then show ?thesis
            unfolding other [OF False] other [OF ih] .
        qed
      qed
    next
      fix i
      assume il: "i < length ?c" and i: "0 < i \<and> (i - 1) div 2 = ?k \<and> 0 < ?k"
      have "?k < i"
        using i parent_less [of i] by simp
      then have ih: "i \<noteq> h"
        using k(2) by simp
      have "node_count (c ! ((i - 1) div 2)) \<le> node_count (c ! i)"
        using hole il i ih k(2) by (intro hole_heapD1 [of c h i]) simp_all
      then have "node_count (c ! ?k) \<le> node_count (c ! i)"
        using i by simp
      then show "node_count (?c ! ((?k - 1) div 2)) \<le> node_count (?c ! i)"
        unfolding k(3) at_h other [OF ih] .
    qed
    moreover have "len = length ?c"
      using len by simp
    ultimately have "hole_heap (fst (adjust_heap_loop ?c ?k len)) (snd (adjust_heap_loop ?c ?k len))
       \<and> snd (adjust_heap_loop ?c ?k len) < len
       \<and> (len - 1) div 2 \<le> snd (adjust_heap_loop ?c ?k len)"
      using k(1) by (intro "1.IH" [OF True refl refl])
    moreover have "adjust_heap_loop c h len = adjust_heap_loop ?c ?k len"
      using True by (subst adjust_heap_loop.simps) (simp add: Let_def)
    ultimately show ?thesis
      by simp
  next
    case False
    then have "adjust_heap_loop c h len = (c, h)"
      by (subst adjust_heap_loop.simps) simp
    with "1.prems" False show ?thesis
      by simp
  qed
qed

lemma adjust_heap_heap:
  assumes "hole_heap c 0" and "c \<noteq> []"
  shows "is_heap (adjust_heap c 0 (length c) v)"
proof -
  let ?len = "length c"
  obtain c1 h1 where s: "adjust_heap_loop c 0 ?len = (c1, h1)"
    by (cases "adjust_heap_loop c 0 ?len")
  have "0 < ?len"
    using assms(2) by simp
  from adjust_heap_loop_heap [OF assms(1) this refl] s have
    hole: "hole_heap c1 h1" and h1: "h1 < ?len" and low: "(?len - 1) div 2 \<le> h1"
    by simp_all
  have l: "length c1 = ?len"
    using length_adjust_heap_loop [of c 0 ?len] s by simp
  show ?thesis
  proof (cases "?len mod 2 = 0 \<and> h1 = (?len - 2) div 2")
    case True
    let ?k = "2 * (h1 + 1) - 1"
    let ?c = "c1[h1 := c1 ! ?k]"
    have k: "?k < ?len" "h1 < ?k" "(?k - 1) div 2 = h1" "0 < ?k" "Suc ?k = ?len"
      using True h1 by presburger+
    have at_h: "?c ! h1 = c1 ! ?k"
      using h1 l by simp
    have other: "?c ! j = c1 ! j" if "j \<noteq> h1" for j
      using that by simp
    have leaf: "(i - 1) div 2 \<noteq> ?k" if "i < ?len" for i
      using that k(5) by presburger
    have "hole_heap ?c ?k"
      unfolding hole_heap_def
    proof (intro conjI allI impI)
      fix i
      assume il: "i < length ?c" and i: "0 < i \<and> i \<noteq> ?k \<and> (i - 1) div 2 \<noteq> ?k"
      show "node_count (?c ! ((i - 1) div 2)) \<le> node_count (?c ! i)"
      proof (cases "i = h1")
        case True
        have "(h1 - 1) div 2 < h1"
          using i True by (intro parent_less) simp
        then have "?c ! ((h1 - 1) div 2) = c1 ! ((h1 - 1) div 2)"
          by simp
        moreover have "node_count (c1 ! ((h1 - 1) div 2)) \<le> node_count (c1 ! ?k)"
          using hole k l i True by (intro hole_heapD2 [of c1 h1 ?k]) simp_all
        ultimately show ?thesis
          unfolding True at_h by simp
      next
        case ih: False
        have "(i - 1) div 2 \<noteq> h1"
        proof
          assume "(i - 1) div 2 = h1"
          with i have "i = ?k \<or> i = Suc ?k"
            by presburger
          with i have "i = Suc ?k"
            by blast
          moreover have "i < Suc ?k"
            using il l unfolding k(5) by simp
          ultimately show False
            by simp
        qed
        then have "node_count (c1 ! ((i - 1) div 2)) \<le> node_count (c1 ! i)"
          using hole il l i ih by (intro hole_heapD1 [of c1 h1 i]) simp_all
        then show ?thesis
          unfolding other [OF \<open>(i - 1) div 2 \<noteq> h1\<close>] other [OF ih] .
      qed
    next
      fix i
      assume il: "i < length ?c" and i: "0 < i \<and> (i - 1) div 2 = ?k \<and> 0 < ?k"
      with leaf [of i] l show "node_count (?c ! ((?k - 1) div 2)) \<le> node_count (?c ! i)"
        by simp
    qed
    moreover have "?k < length ?c"
      using k(1) l by simp
    moreover have "\<forall>i<length ?c. 0 < i \<and> (i - 1) div 2 = ?k \<longrightarrow> node_count v \<le> node_count (?c ! i)"
      using leaf l by simp
    ultimately have "is_heap (push_heap ?c ?k 0 v)"
      by (rule push_heap_heap)
    moreover have "adjust_heap c 0 ?len v = push_heap ?c ?k 0 v"
      using True by (simp add: adjust_heap_def s)
    ultimately show ?thesis
      by simp
  next
    case False
    have leaf: "(i - 1) div 2 \<noteq> h1" if "i < ?len" "0 < i" for i
      using that False low by presburger
    have "\<forall>i<length c1. 0 < i \<and> (i - 1) div 2 = h1 \<longrightarrow> node_count v \<le> node_count (c1 ! i)"
      using leaf l by auto
    with hole have "is_heap (push_heap c1 h1 0 v)"
      using h1 l by (intro push_heap_heap) simp_all
    moreover have "adjust_heap c 0 ?len v = push_heap c1 h1 0 v"
      using False by (auto simp: adjust_heap_def s)
    ultimately show ?thesis
      by simp
  qed
qed

lemma is_heap_pq_push: "is_heap c \<Longrightarrow> is_heap (pq_push n c)"
proof -
  assume heap: "is_heap c"
  let ?c = "c @ [n]"
  have "hole_heap ?c (length c)"
    unfolding hole_heap_def
  proof (intro conjI allI impI)
    fix i
    assume il: "i < length ?c" and i: "0 < i \<and> i \<noteq> length c \<and> (i - 1) div 2 \<noteq> length c"
    then have "i < length c"
      by simp
    moreover from this have "(i - 1) div 2 < length c"
      by simp
    ultimately show "node_count (?c ! ((i - 1) div 2)) \<le> node_count (?c ! i)"
      using heap i by (simp add: is_heap_def nth_append)
  next
    fix i
    assume "i < length ?c" and "0 < i \<and> (i - 1) div 2 = length c \<and> 0 < length c"
    then have False
      by simp presburger
    then show "node_count (?c ! ((length c - 1) div 2)) \<le> node_count (?c ! i)" ..
  qed
  moreover have "\<forall>i<length ?c. 0 < i \<and> (i - 1) div 2 = length c \<longrightarrow> node_count n \<le> node_count (?c ! i)"
    by simp presburger
  ultimately show ?thesis
    unfolding pq_push_def by (intro push_heap_heap) simp_all
qed

lemma is_heap_pq_pop: "is_heap c \<Longrightarrow> is_heap (pq_pop c)"
proof (cases "length c > 1")
  case True
  assume heap: "is_heap c"
  let ?c = "butlast c"
  have "hole_heap ?c 0"
    unfolding hole_heap_def
  proof (intro conjI allI impI)
    fix i
    assume il: "i < length ?c" and i: "0 < i \<and> i \<noteq> 0 \<and> (i - 1) div 2 \<noteq> 0"
    then have "i < length c" "(i - 1) div 2 < length ?c"
      by simp_all
    with heap il i show "node_count (?c ! ((i - 1) div 2)) \<le> node_count (?c ! i)"
      by (simp add: is_heap_def nth_butlast)
  qed simp
  moreover have "?c \<noteq> []"
    using True by (cases c rule: rev_cases) auto
  ultimately have "is_heap (adjust_heap ?c 0 (length ?c) (last c))"
    by (rule adjust_heap_heap)
  then show ?thesis
    using True by (simp add: pq_pop_def)
next
  case False
  assume "is_heap c"
  from False have "butlast c = []"
    by (cases c) auto
  with False show ?thesis
    by (simp add: pq_pop_def is_heap_def)
qed

lemma is_heap_top:
  assumes "is_heap c" and "i < length c"
  shows "node_count (hd c) \<le> node_count (c ! i)"
  using assms(2)
proof (induction i rule: less_induct)
  case (less i)
  show ?case
  proof (cases "i = 0")
    case True
    with less.prems show ?thesis
      by (cases c) auto
  next
    case False
    then have p: "(i - 1) div 2 < i"
      by (intro parent_less) simp
    with less.prems have "node_count (hd c) \<le> node_count (c ! ((i - 1) div 2))"
      by (intro less.IH) simp_all
    also have "\<dots> \<le> node_count (c ! i)"
      using assms(1) less.prems False by (simp add: is_heap_def)
    finally show ?thesis .
  qed
qed

lemma is_heap_least: "is_heap c \<Longrightarrow> x \<in> set c \<Longrightarrow> node_count (hd c) \<le> node_count x"
  by (metis in_set_conv_nth is_heap_top)

lemma set_pq_pop: "c \<noteq> [] \<Longrightarrow> insert (hd c) (set (pq_pop c)) = set c"
  using mset_pq_pop [of c] by (metis set_mset_add_mset_insert set_mset_mset)

lemma pq_pop_nonempty: "1 < length c \<Longrightarrow> pq_pop c \<noteq> []"
  using length_pq_pop [of c] by (cases "pq_pop c") auto

text \<open>One round of the merge loop takes the two nodes at the top out of the queue.\<close>

lemma mset_two_pops:
  assumes "1 < length pq"
  shows "mset pq = add_mset (hd pq) (add_mset (hd (pq_pop pq)) (mset (pq_pop (pq_pop pq))))"
proof -
  have "pq \<noteq> []"
    using assms by auto
  then have "mset pq = add_mset (hd pq) (mset (pq_pop pq))"
    by (simp add: mset_pq_pop)
  also have "mset (pq_pop pq) = add_mset (hd (pq_pop pq)) (mset (pq_pop (pq_pop pq)))"
    using pq_pop_nonempty [OF assms] by (simp add: mset_pq_pop)
  finally show ?thesis .
qed

lemma merge_nodes_round:
  assumes "1 < length pq" and "hd (pq_pop pq) \<noteq> Null"
  shows "merge_nodes pq =
           merge_nodes (pq_push (Node NOT_A_CHAR
                                   (int32 (node_count (hd pq) + node_count (hd (pq_pop pq))))
                                   (hd pq) (hd (pq_pop pq)))
                          (pq_pop (pq_pop pq)))"
  using assms by (subst merge_nodes.simps) (simp add: pq_top_def Let_def)

lemma merge_nodes_done: "length pq \<le> 1 \<Longrightarrow> merge_nodes pq = pq"
  by (subst merge_nodes.simps) simp

lemmas heap_simps =
  pq_push_def pq_pop_def pq_top_def adjust_heap_def push_heap.simps adjust_heap_loop.simps
  merge_nodes.simps compare_def int32_def

subsection \<open>The tree builder keeps the node invariant\<close>

lemma mset_push_leaves:
  "mset (push_leaves m ks pq) = mset pq + image_mset (\<lambda>k. Node k (get m k) Null Null) (mset ks)"
  by (induction ks arbitrary: pq) auto

lemma set_push_leaves:
  "set (push_leaves m ks pq) = set pq \<union> (\<lambda>k. Node k (get m k) Null Null) ` set ks"
  by (induction ks arbitrary: pq) auto

lemma length_push_leaves: "length (push_leaves m ks pq) = length pq + length ks"
  by (induction ks arbitrary: pq) auto

lemma push_leaves_Nil_iff: "push_leaves m ks [] = [] \<longleftrightarrow> ks = []"
  using length_push_leaves [of m ks "[]"] by (simp only: length_0_conv [symmetric] list.size) simp

lemma full_tree_leaf: "k \<noteq> NOT_A_CHAR \<Longrightarrow> full_tree (Node k c Null Null)"
  by (simp add: full_tree_def)

lemma full_tree_merge:
  "full_tree a \<Longrightarrow> full_tree b \<Longrightarrow> full_tree (Node NOT_A_CHAR c a b)"
  by (simp add: full_tree_def)

lemma set_two_pops:
  assumes "1 < length pq"
  shows "set pq = insert (hd pq) (insert (hd (pq_pop pq)) (set (pq_pop (pq_pop pq))))"
proof -
  have "set_mset (mset pq)
        = set_mset (add_mset (hd pq) (add_mset (hd (pq_pop pq)) (mset (pq_pop (pq_pop pq)))))"
    using mset_two_pops [OF assms] by simp
  then show ?thesis
    by simp
qed

lemma length_round:
  "1 < length pq \<Longrightarrow> length (pq_push n (pq_pop (pq_pop pq))) < length pq"
  by simp

lemma merge_nodes_full:
  "pq \<noteq> [] \<Longrightarrow> \<forall>t\<in>set pq. full_tree t \<Longrightarrow> \<exists>t. merge_nodes pq = [t] \<and> full_tree t"
proof (induction "length pq" arbitrary: pq rule: less_induct)
  case less
  show ?case
  proof (cases "1 < length pq")
    case True
    let ?first = "hd pq"
    let ?second = "hd (pq_pop pq)"
    let ?sum = "Node NOT_A_CHAR (int32 (node_count ?first + node_count ?second)) ?first ?second"
    let ?pq = "pq_push ?sum (pq_pop (pq_pop pq))"
    note parts = set_two_pops [OF True]
    have first: "full_tree ?first" and second: "full_tree ?second"
      and rest: "\<forall>t\<in>set (pq_pop (pq_pop pq)). full_tree t"
      using less.prems(2) parts by auto
    have "full_tree ?sum"
      using first second by (rule full_tree_merge)
    with rest have "\<forall>t\<in>set ?pq. full_tree t"
      by simp
    moreover have "?pq \<noteq> []"
      using length_pq_push [of ?sum "pq_pop (pq_pop pq)"] by (cases ?pq) auto
    ultimately have "\<exists>t. merge_nodes ?pq = [t] \<and> full_tree t"
      using length_round [OF True] by (intro less.hyps)
    moreover have "merge_nodes pq = merge_nodes ?pq"
      using True second by (intro merge_nodes_round) (simp_all add: full_tree_def)
    ultimately show ?thesis
      by simp
  next
    case False
    with less.prems(1) obtain t where pq: "pq = [t]"
      by (cases pq) auto
    with less.prems(2) show ?thesis
      by (simp add: merge_nodes_done)
  qed
qed

lemma buildEncodingTree_run:
  "merge_nodes (push_leaves m (keys m) []) = [t] \<Longrightarrow> buildEncodingTree m = Inr t"
  by (simp add: buildEncodingTree_def pq_top_def)

lemma buildEncodingTree_full:
  assumes "keys m \<noteq> []" and "NOT_A_CHAR \<notin> set (keys m)"
  shows "\<exists>t. buildEncodingTree m = Inr t \<and> full_tree t"
proof -
  let ?pq = "push_leaves m (keys m) []"
  have "?pq \<noteq> []"
    using assms(1) by (simp add: push_leaves_Nil_iff)
  moreover have "\<forall>t\<in>set ?pq. full_tree t"
    using assms(2) by (auto simp: set_push_leaves intro!: full_tree_leaf)
  ultimately obtain t where "merge_nodes ?pq = [t]" "full_tree t"
    using merge_nodes_full by blast
  then show ?thesis
    by (simp add: buildEncodingTree_run)
qed

text \<open>
  C4: for a frequency model that is not empty and has no key equal to the internal marker,
  \<^verbatim>\<open>buildEncodingTree\<close> returns a tree, and every node of it is a leaf (character not the
  internal marker, both children absent) or an internal node (character the internal
  marker, both children present).
\<close>

theorem buildEncodingTree_node_invariant:
  assumes "keys m \<noteq> []" and "NOT_A_CHAR \<notin> set (keys m)"
  shows "\<exists>t. buildEncodingTree m = Inr t \<and> t \<noteq> Null \<and> node_invariant t"
  using buildEncodingTree_full [OF assms] by (simp add: full_tree_def)

lemma tree_example:
  "buildEncodingTree [(97, 2), (98, 4), (256, 1)]
     = Inr (Node 257 7 (Node 257 3 (Node 256 1 Null Null) (Node 97 2 Null Null)) (Node 98 4 Null Null))"
proof -
  have "push_leaves [(97, 2), (98, 4), (256, 1)] (keys [(97, 2), (98, 4), (256, 1)]) []
        = [Node 256 1 Null Null, Node 98 4 Null Null, Node 97 2 Null Null]"
    by (simp add: keys_def get_def heap_simps)
  moreover have "merge_nodes [Node 256 1 Null Null, Node 98 4 Null Null, Node 97 2 Null Null]
        = [Node 257 7 (Node 257 3 (Node 256 1 Null Null) (Node 97 2 Null Null)) (Node 98 4 Null Null)]"
    by (simp add: heap_simps NOT_A_CHAR_def)
  ultimately show ?thesis
    by (intro buildEncodingTree_run) (simp only:)
qed

theorem buildEncodingTree_node_invariant_witness:
  "buildEncodingTree [(97, 2), (98, 4), (256, 1)]
     = Inr (Node 257 7 (Node 257 3 (Node 256 1 Null Null) (Node 97 2 Null Null)) (Node 98 4 Null Null))
   \<and> (\<exists>t. buildEncodingTree [(97, 2), (98, 4), (256, 1)] = Inr t \<and> t \<noteq> Null \<and> node_invariant t)"
  using buildEncodingTree_node_invariant [of "[(97, 2), (98, 4), (256, 1)]"]
  by (simp add: tree_example keys_def NOT_A_CHAR_def)

subsection \<open>The code table\<close>

lemma buildEncodingMap_helper_path:
  "buildEncodingMap_helper t em str = Inr em' \<Longrightarrow>
     em' = (\<lambda>k. case em k of Some c \<Rightarrow> Some c | None \<Rightarrow> map_option ((@) str) (path t k))"
proof (induction t arbitrary: em str em')
  case Null
  then show ?case by simp
next
  case (Node ch cnt z1 o1)
  show ?case
  proof (cases "ch = NOT_A_CHAR")
    case False
    with Node.prems have em': "em' = emplace em ch str"
      by auto
    show ?thesis
      unfolding em' using False
      by (auto simp: emplace_def fun_eq_iff split: option.splits)
  next
    case True
    from Node.prems True obtain em1 where
      z: "buildEncodingMap_helper z1 em (str @ ''0'') = Inr em1" and
      o: "buildEncodingMap_helper o1 em1 (str @ ''1'') = Inr em'"
      by (auto simp: Let_def split: sum.splits)
    have em1: "em1 = (\<lambda>k. case em k of Some c \<Rightarrow> Some c
                           | None \<Rightarrow> map_option ((@) (str @ ''0'')) (path z1 k))"
      by (rule Node.IH(1) [OF z])
    have "em' = (\<lambda>k. case em1 k of Some c \<Rightarrow> Some c
                      | None \<Rightarrow> map_option ((@) (str @ ''1'')) (path o1 k))"
      by (rule Node.IH(2) [OF o])
    then show ?thesis
      using True by (auto simp: em1 fun_eq_iff split: option.splits)
  qed
qed

lemma buildEncodingMap_helper_total:
  "full_tree t \<Longrightarrow> \<exists>em'. buildEncodingMap_helper t em str = Inr em'"
proof (induction t arbitrary: em str)
  case Null
  then show ?case by (simp add: full_tree_def)
next
  case (Node ch cnt z1 o1)
  show ?case
  proof (cases "ch = NOT_A_CHAR")
    case False
    then show ?thesis by simp
  next
    case True
    with Node.prems have "full_tree z1" "full_tree o1"
      by (auto simp: full_tree_def)
    from Node.IH(1) [OF this(1)] obtain em1 where
      "buildEncodingMap_helper z1 em (str @ ''0'') = Inr em1" by blast
    moreover from Node.IH(2) [OF \<open>full_tree o1\<close>] obtain em2 where
      "buildEncodingMap_helper o1 em1 (str @ ''1'') = Inr em2" by blast
    ultimately show ?thesis
      using True by (simp add: Let_def)
  qed
qed

lemma buildEncodingMap_path: "buildEncodingMap t = Inr tab \<Longrightarrow> tab = path t"
proof -
  assume "buildEncodingMap t = Inr tab"
  then have "tab = (\<lambda>k. case Map.empty k of Some c \<Rightarrow> Some c
                        | None \<Rightarrow> map_option ((@) []) (path t k))"
    unfolding buildEncodingMap_def by (rule buildEncodingMap_helper_path)
  moreover have "((@) ([]::string)) = id"
    by (rule ext) simp
  ultimately show ?thesis
    by (simp add: fun_eq_iff option.map_id)
qed

lemma buildEncodingMap_full: "full_tree t \<Longrightarrow> buildEncodingMap t = Inr (path t)"
  using buildEncodingMap_helper_total [of t Map.empty "[]"] buildEncodingMap_path [of t]
  by (auto simp: buildEncodingMap_def)

lemma path_prefix_free:
  "path t a = Some pa \<Longrightarrow> path t b = Some pb \<Longrightarrow> prefix pa pb \<Longrightarrow> a = b"
proof (induction t arbitrary: pa pb)
  case Null
  then show ?case by simp
next
  case (Node ch cnt z1 o1)
  show ?case
  proof (cases "ch = NOT_A_CHAR")
    case False
    with Node.prems show ?thesis by (simp split: if_splits)
  next
    case True
    with Node.prems Node.IH show ?thesis
      by (auto split: option.splits)
  qed
qed

text \<open>
  C7: \<^verbatim>\<open>buildEncodingMap\<close> builds a code table for every full tree, and in every
  code table it builds, the code of one symbol is never a prefix of the code of another
  symbol.
\<close>

theorem buildEncodingMap_prefix_free:
  "(full_tree t \<longrightarrow> (\<exists>tab. buildEncodingMap t = Inr tab))
   \<and> (\<forall>tab a b ca cb. buildEncodingMap t = Inr tab \<and> tab a = Some ca \<and> tab b = Some cb \<and> a \<noteq> b
          \<longrightarrow> \<not> prefix ca cb)"
  using buildEncodingMap_full [of t] buildEncodingMap_path [of t] path_prefix_free [of t]
  by blast

theorem buildEncodingMap_prefix_free_witness:
  "\<exists>tab. buildEncodingMap (Node 257 3 (Node 256 1 Null Null) (Node 97 2 Null Null)) = Inr tab
     \<and> tab 256 = Some ''0'' \<and> tab 97 = Some ''1'' \<and> \<not> prefix ''0'' ''1'' \<and> \<not> prefix ''1'' ''0''"
proof -
  let ?t = "Node 257 3 (Node 256 1 Null Null) (Node 97 2 Null Null)"
  have full: "full_tree ?t"
    by (simp add: full_tree_def NOT_A_CHAR_def)
  from buildEncodingMap_prefix_free [of ?t] full obtain tab where
    tab: "buildEncodingMap ?t = Inr tab" by blast
  have "tab = path ?t"
    using tab by (rule buildEncodingMap_path)
  then have codes: "tab 256 = Some ''0''" "tab 97 = Some ''1''"
    by (simp_all add: NOT_A_CHAR_def)
  with buildEncodingMap_prefix_free [of ?t] tab
  have "\<not> prefix ''0'' ''1''" "\<not> prefix ''1'' ''0''"
    by (metis numeral_eq_iff semiring_norm(89) codes tab)+
  with tab codes show ?thesis by blast
qed

subsection \<open>The encoder\<close>

lemma emitted_bits_append [simp]: "emitted_bits (s @ t) = emitted_bits s @ emitted_bits t"
  by (simp add: emitted_bits_def)

lemma emitted_bits_Nil [simp]: "emitted_bits [] = []"
  by (simp add: emitted_bits_def)


lemma incremented_0 [simp]: "incremented sz 0 = sz"
  by (simp add: incremented_def)

lemma incremented_once: "incremented (int32 (sz + 1)) n = incremented sz (Suc n)"
  by (simp add: incremented_def algebra_simps)

lemma incremented_add: "incremented (incremented sz a) b = incremented sz (a + b)"
  by (simp add: incremented_def algebra_simps)


lemma write_code_eq:
  "write_code code out sz
     = ((fst out, snd out @ emitted_bits code), incremented sz (length code))"
proof (induction code arbitrary: out sz)
  case Nil
  show ?case by simp
next
  case (Cons b code)
  show ?case
    by (simp add: Cons.IH incremented_once Let_def) (simp add: writeBit_def emitted_bits_def)
qed

lemma code_string_Cons:
  "em (char_to_int c) = Some code \<Longrightarrow> code_string em (c # s) = code @ code_string em s"
  by (simp add: code_string_def)

lemma encode_symbols_ok:
  "\<forall>c\<in>set s. em (char_to_int c) \<noteq> None \<Longrightarrow>
   encode_symbols s em out sz bs =
     Inr (bs @ code_string em s, (fst out, snd out @ emitted_bits (code_string em s)),
          incremented sz (length (code_string em s)))"
proof (induction s arbitrary: out sz bs)
  case Nil
  then show ?case by (simp add: code_string_def)
next
  case (Cons c s)
  then obtain code where code: "em (char_to_int c) = Some code"
    by auto
  have "encode_symbols (c # s) em out sz bs =
          encode_symbols s em (fst out, snd out @ emitted_bits code) (incremented sz (length code))
            (bs @ code)"
    by (simp add: code write_code_eq)
  also have "\<dots> = Inr ((bs @ code) @ code_string em s,
                  (fst out, (snd out @ emitted_bits code) @ emitted_bits (code_string em s)),
                  incremented (incremented sz (length code)) (length (code_string em s)))"
    using Cons.prems by (subst Cons.IH) simp_all
  finally show ?case
    using code by (simp add: code_string_def incremented_add)
qed








subsection \<open>The decoder\<close>

lemma reserved_distinct [simp]: "PSEUDO_EOF \<noteq> NOT_A_CHAR" "NOT_A_CHAR \<noteq> PSEUDO_EOF"
  by (simp_all add: PSEUDO_EOF_def NOT_A_CHAR_def)

lemma decode_loop_eof [simp]: "decode_loop (bits, True) root cur bs out = Inr (bs, out)"
  by (simp add: decode_loop.simps [of "(bits, True)"])

lemma decode_loop_null [simp]: "decode_loop (bits, False) root Null bs out = Inl null_pointer"
  by (simp add: decode_loop.simps [of "(bits, False)" root Null])

lemma decode_loop_sentinel [simp]:
  "decode_loop (bits, False) root (Node PSEUDO_EOF cnt z1 o1) bs out = Inr (bs, out)"
  by (simp add: decode_loop.simps [of "(bits, False)" root "Node PSEUDO_EOF cnt z1 o1"])

lemma decode_loop_inner_empty [simp]:
  "decode_loop ([], False) root (Node NOT_A_CHAR cnt z1 o1) bs out = Inr (bs, out)"
  by (simp add: decode_loop.simps [of "([], False)" root "Node NOT_A_CHAR cnt z1 o1"] readBit_def)

lemma decode_loop_inner_bit [simp]:
  "decode_loop (b # bits, False) root (Node NOT_A_CHAR cnt z1 o1) bs out
     = decode_loop (bits, False) root (if b then o1 else z1) bs out"
  by (simp add: decode_loop.simps [of "(b # bits, False)" root "Node NOT_A_CHAR cnt z1 o1"] readBit_def)

lemma decode_loop_leaf_empty:
  "ch \<noteq> PSEUDO_EOF \<Longrightarrow> ch \<noteq> NOT_A_CHAR \<Longrightarrow>
   decode_loop ([], False) root (Node ch cnt z1 o1) bs out
     = Inr (bs @ [int_to_char ch], out @ [int_to_char ch])"
  by (simp add: decode_loop.simps [of "([], False)" root "Node ch cnt z1 o1"] readBit_def)

lemma decode_loop_leaf_bit:
  "ch \<noteq> PSEUDO_EOF \<Longrightarrow> ch \<noteq> NOT_A_CHAR \<Longrightarrow>
   decode_loop (b # bits, False) (Node rc rn rz ro) (Node ch cnt z1 o1) bs out
     = decode_loop (bits, False) (Node rc rn rz ro) (if b then ro else rz)
         (bs @ [int_to_char ch]) (out @ [int_to_char ch])"
  by (simp add: decode_loop.simps [of "(b # bits, False)" "Node rc rn rz ro" "Node ch cnt z1 o1"] readBit_def)

lemma decode_loop_leaf_indep:
  "ch \<noteq> NOT_A_CHAR \<Longrightarrow>
   decode_loop input root (Node ch cnt z1 o1) bs out = decode_loop input root (Node ch 0 Null Null) bs out"
  by (simp add: decode_loop.simps [of input root "Node ch cnt z1 o1"]
      decode_loop.simps [of input root "Node ch 0 Null Null"])

lemma path_bitstring: "path t k = Some p \<Longrightarrow> set p \<subseteq> {CHR ''0'', CHR ''1''}"
  by (induction t arbitrary: p) (auto split: if_splits option.splits)

text \<open>Following the path of a symbol leads to a leaf of that symbol.\<close>

lemma decode_loop_descend:
  "path cur k = Some p \<Longrightarrow>
   decode_loop (emitted_bits p @ rest, False) root cur bs out
     = decode_loop (rest, False) root (Node k 0 Null Null) bs out"
proof (induction cur arbitrary: p)
  case Null
  then show ?case by simp
next
  case (Node ch cnt z1 o1)
  show ?case
  proof (cases "ch = NOT_A_CHAR")
    case False
    with Node.prems have "ch = k" "p = []"
      by (auto split: if_splits)
    then show ?thesis
      using False decode_loop_leaf_indep [of ch "(rest, False)" root cnt z1 o1 bs out] by simp
  next
    case True
    show ?thesis
    proof (cases "path z1 k")
      case (Some q)
      with Node.prems True have "p = CHR ''0'' # q" by simp
      then show ?thesis
        using True Node.IH(1) [OF Some] by (simp add: emitted_bits_def)
    next
      case None
      with Node.prems True obtain q where q: "path o1 k = Some q" "p = CHR ''1'' # q"
        by (auto split: option.splits)
      then show ?thesis
        using True Node.IH(2) [OF q(1)] by (simp add: emitted_bits_def)
    qed
  qed
qed

lemma decode_loop_stays_inner:
  "stays_inner cur q \<Longrightarrow> decode_loop (q, False) root cur bs out = Inr (bs, out)"
  by (induction cur q rule: stays_inner.induct) auto

text \<open>From a leaf of a real symbol: the symbol is emitted, and the next code is followed from the root.\<close>

lemma decode_loop_leaf_then_path:
  assumes "k0 \<noteq> PSEUDO_EOF" "k0 \<noteq> NOT_A_CHAR"
    and "path (Node NOT_A_CHAR rn rz ro) k = Some p"
  shows "decode_loop (emitted_bits p @ rest, False) (Node NOT_A_CHAR rn rz ro) (Node k0 0 Null Null) bs out
     = decode_loop (rest, False) (Node NOT_A_CHAR rn rz ro) (Node k 0 Null Null)
         (bs @ [int_to_char k0]) (out @ [int_to_char k0])"
proof (cases "path rz k")
  case (Some q)
  with assms(3) have "p = CHR ''0'' # q" by simp
  then show ?thesis
    using assms(1,2) decode_loop_descend [OF Some] 
    by (simp add: emitted_bits_def decode_loop_leaf_bit)
next
  case None
  with assms(3) obtain q where q: "path ro k = Some q" "p = CHR ''1'' # q"
    by (auto split: option.splits)
  then show ?thesis
    using assms(1,2) decode_loop_descend [OF q(1)]
    by (simp add: emitted_bits_def decode_loop_leaf_bit)
qed


lemma symbol_codes_Nil [simp]: "symbol_codes t [] = []"
  by (simp add: symbol_codes_def)

lemma symbol_codes_Cons:
  "path t k = Some p \<Longrightarrow> symbol_codes t (k # syms) = p @ symbol_codes t syms"
  by (simp add: symbol_codes_def)

lemma path_not_marker: "path t k = Some p \<Longrightarrow> k \<noteq> NOT_A_CHAR"
  by (induction t arbitrary: p) (auto split: if_splits option.splits)

lemma decode_loop_symbols:
  assumes "path (Node NOT_A_CHAR rn rz ro) PSEUDO_EOF = Some pe"
    and "\<forall>k\<in>set syms. k \<noteq> PSEUDO_EOF \<and> path (Node NOT_A_CHAR rn rz ro) k \<noteq> None"
    and "k0 \<noteq> PSEUDO_EOF" "k0 \<noteq> NOT_A_CHAR"
  shows "decode_loop (emitted_bits (symbol_codes (Node NOT_A_CHAR rn rz ro) syms @ pe) @ rest, False)
           (Node NOT_A_CHAR rn rz ro) (Node k0 0 Null Null) bs out
         = Inr (bs @ map int_to_char (k0 # syms), out @ map int_to_char (k0 # syms))"
  using assms(2-4)
proof (induction syms arbitrary: k0 bs out)
  case Nil
  show ?case
    using decode_loop_leaf_then_path [OF Nil(2,3) assms(1)] by simp
next
  case (Cons k1 syms)
  let ?root = "Node NOT_A_CHAR rn rz ro"
  from Cons.prems(1) obtain p1 where p1: "path ?root k1 = Some p1" and k1: "k1 \<noteq> PSEUDO_EOF"
    by auto
  have k1': "k1 \<noteq> NOT_A_CHAR"
    using p1 by (rule path_not_marker)
  have rest: "\<forall>k\<in>set syms. k \<noteq> PSEUDO_EOF \<and> path ?root k \<noteq> None"
    using Cons.prems(1) by simp
  have "decode_loop (emitted_bits (symbol_codes ?root (k1 # syms) @ pe) @ rest, False) ?root
          (Node k0 0 Null Null) bs out
        = decode_loop (emitted_bits p1 @ (emitted_bits (symbol_codes ?root syms @ pe) @ rest), False) ?root
          (Node k0 0 Null Null) bs out"
    by (simp add: symbol_codes_Cons [OF p1])
  also have "\<dots> = decode_loop (emitted_bits (symbol_codes ?root syms @ pe) @ rest, False) ?root
          (Node k1 0 Null Null) (bs @ [int_to_char k0]) (out @ [int_to_char k0])"
    by (rule decode_loop_leaf_then_path [OF Cons.prems(2,3) p1])
  also have "\<dots> = Inr ((bs @ [int_to_char k0]) @ map int_to_char (k1 # syms),
                      (out @ [int_to_char k0]) @ map int_to_char (k1 # syms))"
    by (rule Cons.IH [OF rest k1 k1'])
  finally show ?case by simp
qed

lemma decode_loop_symbols_cut:
  assumes "stays_inner (Node NOT_A_CHAR rn rz ro) q"
    and "\<forall>k\<in>set syms. k \<noteq> PSEUDO_EOF \<and> path (Node NOT_A_CHAR rn rz ro) k \<noteq> None"
    and "k0 \<noteq> PSEUDO_EOF" "k0 \<noteq> NOT_A_CHAR"
  shows "decode_loop (emitted_bits (symbol_codes (Node NOT_A_CHAR rn rz ro) syms) @ q, False)
           (Node NOT_A_CHAR rn rz ro) (Node k0 0 Null Null) bs out
         = Inr (bs @ map int_to_char (k0 # syms), out @ map int_to_char (k0 # syms))"
  using assms(2-4)
proof (induction syms arbitrary: k0 bs out)
  case Nil
  show ?case
  proof (cases q)
    case Nil
    then show ?thesis
      using Nil.prems by (simp add: decode_loop_leaf_empty)
  next
    case (Cons b q')
    with assms(1) have "stays_inner (if b then ro else rz) q'"
      by simp
    then show ?thesis
      using Cons Nil.prems by (simp add: decode_loop_leaf_bit decode_loop_stays_inner)
  qed
next
  case (Cons k1 syms)
  let ?root = "Node NOT_A_CHAR rn rz ro"
  from Cons.prems(1) obtain p1 where p1: "path ?root k1 = Some p1" and k1: "k1 \<noteq> PSEUDO_EOF"
    by auto
  have k1': "k1 \<noteq> NOT_A_CHAR"
    using p1 by (rule path_not_marker)
  have rest: "\<forall>k\<in>set syms. k \<noteq> PSEUDO_EOF \<and> path ?root k \<noteq> None"
    using Cons.prems(1) by simp
  have "decode_loop (emitted_bits (symbol_codes ?root (k1 # syms)) @ q, False) ?root
          (Node k0 0 Null Null) bs out
        = decode_loop (emitted_bits p1 @ (emitted_bits (symbol_codes ?root syms) @ q), False) ?root
          (Node k0 0 Null Null) bs out"
    by (simp add: symbol_codes_Cons [OF p1])
  also have "\<dots> = decode_loop (emitted_bits (symbol_codes ?root syms) @ q, False) ?root
          (Node k1 0 Null Null) (bs @ [int_to_char k0]) (out @ [int_to_char k0])"
    by (rule decode_loop_leaf_then_path [OF Cons.prems(2,3) p1])
  also have "\<dots> = Inr ((bs @ [int_to_char k0]) @ map int_to_char (k1 # syms),
                      (out @ [int_to_char k0]) @ map int_to_char (k1 # syms))"
    by (rule Cons.IH [OF rest k1 k1'])
  finally show ?case by simp
qed

lemma decode_complete:
  assumes "path root PSEUDO_EOF = Some pe"
    and "\<forall>k\<in>set syms. k \<noteq> PSEUDO_EOF \<and> path root k \<noteq> None"
    and "syms \<noteq> [] \<longrightarrow> (\<exists>rn rz ro. root = Node NOT_A_CHAR rn rz ro)"
  shows "decode (emitted_bits (symbol_codes root syms @ pe) @ rest, False) root out
         = Inr (map int_to_char syms, out @ map int_to_char syms)"
proof (cases syms)
  case Nil
  then show ?thesis
    using decode_loop_descend [OF assms(1), of rest root "[]" out] by (simp add: decode_def)
next
  case (Cons k1 syms')
  with assms(3) obtain rn rz ro where root: "root = Node NOT_A_CHAR rn rz ro"
    by auto
  from assms(2) Cons obtain p1 where p1: "path root k1 = Some p1" and k1: "k1 \<noteq> PSEUDO_EOF"
    by auto
  have k1': "k1 \<noteq> NOT_A_CHAR"
    using p1 by (rule path_not_marker)
  have rest: "\<forall>k\<in>set syms'. k \<noteq> PSEUDO_EOF \<and> path root k \<noteq> None"
    using assms(2) Cons by simp
  have "decode (emitted_bits (symbol_codes root syms @ pe) @ rest, False) root out
        = decode_loop (emitted_bits p1 @ (emitted_bits (symbol_codes root syms' @ pe) @ rest), False)
            root root [] out"
    by (simp add: decode_def Cons symbol_codes_Cons [OF p1])
  also have "\<dots> = decode_loop (emitted_bits (symbol_codes root syms' @ pe) @ rest, False)
            root (Node k1 0 Null Null) [] out"
    by (rule decode_loop_descend [OF p1])
  also have "\<dots> = Inr ([] @ map int_to_char (k1 # syms'), out @ map int_to_char (k1 # syms'))"
    using decode_loop_symbols [OF assms(1) [unfolded root] rest [unfolded root] k1 k1']
    unfolding root .
  finally show ?thesis
    by (simp add: Cons)
qed

lemma decode_cut:
  assumes "stays_inner root q"
    and "\<forall>k\<in>set syms. k \<noteq> PSEUDO_EOF \<and> path root k \<noteq> None"
  shows "decode (emitted_bits (symbol_codes root syms) @ q, False) root out
         = Inr (map int_to_char syms, out @ map int_to_char syms)"
proof (cases syms)
  case Nil
  then show ?thesis
    using decode_loop_stays_inner [OF assms(1)] by (simp add: decode_def)
next
  case (Cons k1 syms')
  from assms(1) obtain rn rz ro where root: "root = Node NOT_A_CHAR rn rz ro"
    by (cases root; cases q) auto
  from assms(2) Cons obtain p1 where p1: "path root k1 = Some p1" and k1: "k1 \<noteq> PSEUDO_EOF"
    by auto
  have k1': "k1 \<noteq> NOT_A_CHAR"
    using p1 by (rule path_not_marker)
  have rest: "\<forall>k\<in>set syms'. k \<noteq> PSEUDO_EOF \<and> path root k \<noteq> None"
    using assms(2) Cons by simp
  have "decode (emitted_bits (symbol_codes root syms) @ q, False) root out
        = decode_loop (emitted_bits p1 @ (emitted_bits (symbol_codes root syms') @ q), False)
            root root [] out"
    by (simp add: decode_def Cons symbol_codes_Cons [OF p1])
  also have "\<dots> = decode_loop (emitted_bits (symbol_codes root syms') @ q, False)
            root (Node k1 0 Null Null) [] out"
    by (rule decode_loop_descend [OF p1])
  also have "\<dots> = Inr ([] @ map int_to_char (k1 # syms'), out @ map int_to_char (k1 # syms'))"
    using decode_loop_symbols_cut [OF assms(1) [unfolded root] rest [unfolded root] k1 k1']
    unfolding root .
  finally show ?thesis
    by (simp add: Cons)
qed


text \<open>
  C2, as the code has it: when the bits are the codes of symbols other than the sentinel,
  followed by a code cut short (possibly by nothing), so that the bit source is exhausted
  before the sentinel leaf is reached, \<^verbatim>\<open>decode\<close> returns the symbols decoded so far as
  its ordinary result and has put them into the output; it reports no error.
\<close>

theorem decode_exhausted_source:
  assumes "stays_inner root q"
    and "\<forall>k\<in>set syms. k \<noteq> PSEUDO_EOF \<and> path root k \<noteq> None"
  shows "decode (emitted_bits (symbol_codes root syms) @ q, False) root out
         = Inr (map int_to_char syms, out @ map int_to_char syms)"
  using assms by (rule decode_cut)

theorem decode_exhausted_source_witness:
  "decode ([False, False, True], False)
     (Node NOT_A_CHAR 4 (Node 97 2 Null Null)
        (Node NOT_A_CHAR 2 (Node 98 1 Null Null) (Node PSEUDO_EOF 1 Null Null))) ''x''
   = Inr (''aa'', ''xaa'')"
proof -
  let ?root = "Node NOT_A_CHAR 4 (Node 97 2 Null Null)
        (Node NOT_A_CHAR 2 (Node 98 1 Null Null) (Node PSEUDO_EOF 1 Null Null))"
  have "stays_inner ?root [True]"
    by simp
  moreover have "\<forall>k\<in>set [97, 97]. k \<noteq> PSEUDO_EOF \<and> path ?root k \<noteq> None"
    by (simp add: PSEUDO_EOF_def NOT_A_CHAR_def)
  ultimately have "decode (emitted_bits (symbol_codes ?root [97, 97]) @ [True], False) ?root ''x''
         = Inr (map int_to_char [97, 97], ''x'' @ map int_to_char [97, 97])"
    by (rule decode_exhausted_source)
  moreover have "symbol_codes ?root [97, 97] = ''00''"
    by (simp add: symbol_codes_def NOT_A_CHAR_def)
  ultimately show ?thesis
    by (simp add: emitted_bits_def int_to_char_def char_of_def)
qed

text \<open>
  The claim C2 as the spec words it has \<^verbatim>\<open>decode\<close> report a truncated stream. On the tree
  with the leaves \<^verbatim>\<open>a\<close> (code 0) and sentinel (code 1) and the single bit 0, the bit source
  is exhausted before the sentinel is reached, and \<^verbatim>\<open>decode\<close> returns \<^verbatim>\<open>"a"\<close>.
\<close>

theorem decode_truncated_no_error:
  "decode ([False], False) (Node NOT_A_CHAR 2 (Node 97 1 Null Null) (Node PSEUDO_EOF 1 Null Null)) []
   = Inr (''a'', ''a'')"
proof -
  have "(97::int) \<noteq> PSEUDO_EOF" "(97::int) \<noteq> NOT_A_CHAR"
    by (simp_all add: PSEUDO_EOF_def NOT_A_CHAR_def)
  then show ?thesis
    by (simp add: decode_def decode_loop_leaf_empty int_to_char_def char_of_def)
qed

subsection \<open>The model with a single symbol\<close>

text \<open>
  C8, as the code has it: for the frequency model with the single symbol \<open>c\<close>,
  \<^verbatim>\<open>buildEncodingTree\<close> returns a single leaf; unless \<open>c\<close> is the internal marker,
  \<^verbatim>\<open>buildEncodingMap\<close> on that leaf yields the code table with the one entry that binds
  \<open>c\<close> to the empty code; \<^verbatim>\<open>decode\<close> looks at the root as a leaf before it reads a bit:
  if \<open>c\<close> is the sentinel it stops at once with nothing decoded, whatever the bit source
  holds, and if \<open>c\<close> is a real symbol and the bit source holds no bit it returns \<open>c\<close>.
\<close>

lemma single_leaf_tree: "buildEncodingTree [(c, n)] = Inr (Node c n Null Null)"
proof (rule buildEncodingTree_run)
  have "push_leaves [(c, n)] (keys [(c, n)]) [] = [Node c n Null Null]"
    by (simp add: keys_def get_def pq_push_def push_heap.simps)
  then show "merge_nodes (push_leaves [(c, n)] (keys [(c, n)]) []) = [Node c n Null Null]"
    by (simp add: merge_nodes_done)
qed

theorem single_symbol_model:
  "buildEncodingTree [(c, n)] = Inr (Node c n Null Null)
   \<and> (c \<noteq> NOT_A_CHAR \<longrightarrow> buildEncodingMap (Node c n Null Null) = Inr [c \<mapsto> []])
   \<and> (c = PSEUDO_EOF \<longrightarrow> decode (bits, False) (Node c n Null Null) out = Inr ([], out))
   \<and> (c \<noteq> PSEUDO_EOF \<and> c \<noteq> NOT_A_CHAR \<longrightarrow>
        decode ([], False) (Node c n Null Null) out = Inr ([int_to_char c], out @ [int_to_char c]))"
  by (simp add: single_leaf_tree buildEncodingMap_def emplace_def decode_def
      decode_loop_leaf_empty)

theorem single_symbol_model_witness:
  "buildEncodingTree [(PSEUDO_EOF, 1)] = Inr (Node PSEUDO_EOF 1 Null Null)
   \<and> buildEncodingMap (Node PSEUDO_EOF 1 Null Null) = Inr [PSEUDO_EOF \<mapsto> []]
   \<and> decode ([True, False], False) (Node PSEUDO_EOF 1 Null Null) [] = Inr ([], [])
   \<and> buildEncodingTree [(97, 3)] = Inr (Node 97 3 Null Null)
   \<and> buildEncodingMap (Node 97 3 Null Null) = Inr [97 \<mapsto> []]
   \<and> decode ([], False) (Node 97 3 Null Null) [] = Inr (''a'', ''a'')"
  using single_symbol_model [of PSEUDO_EOF 1 "[True, False]" "[]"]
    single_symbol_model [of 97 3 "[]" "[]"]
  by (simp add: PSEUDO_EOF_def NOT_A_CHAR_def int_to_char_def char_of_def)

text \<open>
  The claim C8 as the spec words it has \<^verbatim>\<open>decode\<close> treat the root of a single-leaf tree
  as a leaf for every single symbol. For the real symbol \<^verbatim>\<open>a\<close> and a bit source that holds
  a bit, \<^verbatim>\<open>decode\<close> goes on from the root to its absent child and dereferences it.
\<close>

theorem single_leaf_decode_descends:
  "buildEncodingTree [(97, 3)] = Inr (Node 97 3 Null Null)
   \<and> decode ([False], False) (Node 97 3 Null Null) [] = Inl null_pointer"
proof -
  have "(97::int) \<noteq> PSEUDO_EOF" "(97::int) \<noteq> NOT_A_CHAR"
    by (simp_all add: PSEUDO_EOF_def NOT_A_CHAR_def)
  then show ?thesis
    by (simp add: single_leaf_tree decode_def
        decode_loop.simps [of "([False], False)"] readBit_def)
qed

subsection \<open>The leaves of the built tree\<close>

lemma leaves_merge_nodes:
  "\<forall>t\<in>set pq. t \<noteq> Null \<Longrightarrow>
   sum_mset (image_mset (\<lambda>t. mset (leaves t)) (mset (merge_nodes pq)))
     = sum_mset (image_mset (\<lambda>t. mset (leaves t)) (mset pq))"
proof (induction "length pq" arbitrary: pq rule: less_induct)
  case less
  show ?case
  proof (cases "1 < length pq")
    case True
    let ?first = "hd pq"
    let ?second = "hd (pq_pop pq)"
    let ?sum = "Node NOT_A_CHAR (int32 (node_count ?first + node_count ?second)) ?first ?second"
    let ?pq = "pq_push ?sum (pq_pop (pq_pop pq))"
    note parts = set_two_pops [OF True]
    have second: "?second \<noteq> Null"
      and rest: "\<forall>t\<in>set (pq_pop (pq_pop pq)). t \<noteq> Null"
      using less.prems parts by auto
    have "\<forall>t\<in>set ?pq. t \<noteq> Null"
      using rest by simp
    then have "sum_mset (image_mset (\<lambda>t. mset (leaves t)) (mset (merge_nodes ?pq)))
               = sum_mset (image_mset (\<lambda>t. mset (leaves t)) (mset ?pq))"
      using length_round [OF True] by (intro less.hyps)
    also have "\<dots> = sum_mset (image_mset (\<lambda>t. mset (leaves t))
                   (add_mset ?first (add_mset ?second (mset (pq_pop (pq_pop pq))))))"
      by simp
    also have "\<dots> = sum_mset (image_mset (\<lambda>t. mset (leaves t)) (mset pq))"
      by (simp only: mset_two_pops [OF True, symmetric])
    finally show ?thesis
      using merge_nodes_round [OF True second] by simp
  next
    case False
    then show ?thesis
      by (simp add: merge_nodes_done)
  qed
qed

lemma leaves_push_leaves:
  "NOT_A_CHAR \<notin> set ks \<Longrightarrow>
   sum_mset (image_mset (\<lambda>t. mset (leaves t)) (mset (push_leaves m ks [])))
     = mset (map (\<lambda>k. (k, get m k)) ks)"
  unfolding mset_push_leaves by (induction ks) auto

lemma entries_of_keys: "distinct (keys m) \<Longrightarrow> map (\<lambda>k. (k, get m k)) (keys m) = m"
proof (induction m)
  case Nil
  then show ?case by (simp add: keys_def)
next
  case (Cons e m)
  have "map (\<lambda>k. (k, get (e # m) k)) (keys m) = map (\<lambda>k. (k, get m k)) (keys m)"
  proof (rule map_cong [OF refl])
    fix k assume "k \<in> set (keys m)"
    with Cons.prems have "k \<noteq> fst e"
      by (force simp: keys_def)
    then show "(k, get (e # m) k) = (k, get m k)"
      by (cases e) (simp add: get_def)
  qed
  with Cons show ?case
    by (cases e) (simp add: keys_def get_def)
qed

lemma buildEncodingTree_leaves:
  assumes "buildEncodingTree m = Inr t" and "NOT_A_CHAR \<notin> set (keys m)" and "distinct (keys m)"
  shows "mset (leaves t) = mset m"
proof -
  let ?pq = "push_leaves m (keys m) []"
  have nonnull: "\<forall>t\<in>set ?pq. t \<noteq> Null"
    by (auto simp: set_push_leaves)
  have "keys m \<noteq> []"
    using assms(1) by (auto simp: buildEncodingTree_def merge_nodes_done)
  then have "?pq \<noteq> []"
    by (simp add: push_leaves_Nil_iff)
  moreover have "\<forall>t\<in>set ?pq. full_tree t"
    using assms(2) by (auto simp: set_push_leaves intro!: full_tree_leaf)
  ultimately obtain t' where t': "merge_nodes ?pq = [t']"
    using merge_nodes_full [of ?pq] by blast
  from buildEncodingTree_run [OF this] assms(1) have "merge_nodes ?pq = [t]"
    using t' by simp
  with leaves_merge_nodes [OF nonnull] have "mset (leaves t) = mset (map (\<lambda>k. (k, get m k)) (keys m))"
    by (simp add: leaves_push_leaves [OF assms(2)])
  then show ?thesis
    by (simp add: entries_of_keys [OF assms(3)])
qed

lemma path_iff_leaves: "path t k \<noteq> None \<longleftrightarrow> k \<in> fst ` set (leaves t)"
proof (induction t)
  case Null
  show ?case by simp
next
  case (Node ch cnt z1 o1)
  show ?case
  proof (cases "ch = NOT_A_CHAR")
    case True
    then show ?thesis
      using Node.IH by (auto simp: image_Un split: option.splits)
  next
    case False
    then show ?thesis by auto
  qed
qed



subsection \<open>compress and decompress\<close>





lemma compress_eq:
  assumes "buildEncodingTree (buildFrequencyMap fs filename (is_open (open_ifstream fs filename)) []) = Inr t"
    and "full_tree t"
    and "path t PSEUDO_EOF = Some pe"
    and "\<forall>c\<in>set (unread (open_ifstream fs filename)). path t (char_to_int c) \<noteq> None"
  shows "compress fs filename
         = Inr (code_string (path t) (unread (open_ifstream fs filename)) @ pe,
                close_ofbitstream fs (filename @ ''.huf'')
                  (buildFrequencyMap fs filename (is_open (open_ifstream fs filename)) [],
                   emitted_bits (code_string (path t) (unread (open_ifstream fs filename)) @ pe)))"
  using assms
  by (simp add: compress_def Let_def buildEncodingMap_full encode_def encode_symbols_ok
      write_code_eq write_header_def)

lemma decompress_eq:
  assumes "huf fs filename = Some (m, bits)"
    and "output_name filename = Inr unc"
    and "buildEncodingTree (replay fs m) = Inr t"
    and "decode (bits, False) t [] = Inr (msg, out)"
  shows "decompress fs filename = Inr (msg, close_ofstream fs unc out)"
  using assms by (simp add: decompress_def open_ifbitstream_def)






text \<open>
  What the round trip supposes of the header is needed. The file that holds \<^verbatim>\<open>ab\<close> gives
  the frequency map with the keys in the order \<^verbatim>\<open>a\<close>, \<^verbatim>\<open>b\<close>, sentinel, all with the
  same count, and the payload 10110. If the frequency map read back holds the same counts
  with the keys in the order \<^verbatim>\<open>b\<close>, \<^verbatim>\<open>a\<close>, sentinel, the tree built from it has the
  leaves of \<^verbatim>\<open>a\<close> and \<^verbatim>\<open>b\<close> the other way round, and \<^verbatim>\<open>decompress\<close> returns \<^verbatim>\<open>ba\<close>.
\<close>

lemma replay_order_matters:
  "compress \<lparr>plain = [''a.txt'' \<mapsto> ''ab''], huf = Map.empty, writable = (\<lambda>name. True),
              replay = (\<lambda>m. [(98, 1), (97, 1), (256, 1)])\<rparr> ''a.txt''
     = Inr (''10110'',
            \<lparr>plain = [''a.txt'' \<mapsto> ''ab''],
             huf = [''a.txt.huf'' \<mapsto> ([(97, 1), (98, 1), (256, 1)],
                                       [True, False, True, True, False, False, False, False])],
             writable = (\<lambda>name. True), replay = (\<lambda>m. [(98, 1), (97, 1), (256, 1)])\<rparr>)
   \<and> (\<exists>fs2. decompress
          \<lparr>plain = [''a.txt'' \<mapsto> ''ab''],
           huf = [''a.txt.huf'' \<mapsto> ([(97, 1), (98, 1), (256, 1)],
                                     [True, False, True, True, False, False, False, False])],
           writable = (\<lambda>name. True), replay = (\<lambda>m. [(98, 1), (97, 1), (256, 1)])\<rparr> ''a.txt.huf''
        = Inr (''ba'', fs2))"
proof -
  let ?fs = "\<lparr>plain = [''a.txt'' \<mapsto> ''ab''], huf = Map.empty, writable = (\<lambda>name. True),
              replay = (\<lambda>m. [(98, 1), (97, 1), (256, 1)])\<rparr>"
  let ?bits = "[True, False, True, True, False, False, False, False]"
  let ?fs1 = "\<lparr>plain = [''a.txt'' \<mapsto> ''ab''],
             huf = [''a.txt.huf'' \<mapsto> ([(97, 1), (98, 1), (256, 1)], ?bits)],
             writable = (\<lambda>name. True), replay = (\<lambda>m. [(98, 1), (97, 1), (256, 1)])\<rparr>"
  let ?t = "Node NOT_A_CHAR 3 (Node 256 1 Null Null)
              (Node NOT_A_CHAR 2 (Node 97 1 Null Null) (Node 98 1 Null Null))"
  let ?u = "Node NOT_A_CHAR 3 (Node 256 1 Null Null)
              (Node NOT_A_CHAR 2 (Node 98 1 Null Null) (Node 97 1 Null Null))"
  have opened: "open_ifstream ?fs ''a.txt'' = Some ''ab''"
    by (simp add: open_ifstream_def)
  have m: "buildFrequencyMap ?fs ''a.txt'' True [] = [(97, 1), (98, 1), (256, 1)]"
    by (simp add: buildFrequencyMap_def opened unread_def count_symbol_def containsKey_def
        get_def char_to_int_def PSEUDO_EOF_def int32_def)
  have "push_leaves [(97, 1), (98, 1), (256, 1)] (keys [(97, 1), (98, 1), (256, 1)]) []
        = [Node 97 1 Null Null, Node 98 1 Null Null, Node 256 1 Null Null]"
    by (simp add: keys_def get_def heap_simps)
  moreover have "merge_nodes [Node 97 1 Null Null, Node 98 1 Null Null, Node 256 1 Null Null] = [?t]"
    by (simp add: heap_simps)
  ultimately have t: "buildEncodingTree [(97, 1), (98, 1), (256, 1)] = Inr ?t"
    by (intro buildEncodingTree_run) (simp only:)
  have "push_leaves [(98, 1), (97, 1), (256, 1)] (keys [(98, 1), (97, 1), (256, 1)]) []
        = [Node 98 1 Null Null, Node 97 1 Null Null, Node 256 1 Null Null]"
    by (simp add: keys_def get_def heap_simps)
  moreover have "merge_nodes [Node 98 1 Null Null, Node 97 1 Null Null, Node 256 1 Null Null] = [?u]"
    by (simp add: heap_simps)
  ultimately have u: "buildEncodingTree [(98, 1), (97, 1), (256, 1)] = Inr ?u"
    by (intro buildEncodingTree_run) (simp only:)
  have full: "full_tree ?t"
    by (simp add: full_tree_def NOT_A_CHAR_def)
  have pe: "path ?t PSEUDO_EOF = Some ''0''"
    by (simp add: PSEUDO_EOF_def NOT_A_CHAR_def)
  have syms: "\<forall>c\<in>set ''ab''. path ?t (char_to_int c) \<noteq> None"
    by (simp add: char_to_int_def NOT_A_CHAR_def)
  have cs: "code_string (path ?t) ''ab'' = ''1011''"
    by (simp add: code_string_def char_to_int_def NOT_A_CHAR_def)
  have pad: "replicate 3 False = [False, False, False]"
    by (simp add: eval_nat_numeral)
  have c: "compress ?fs ''a.txt'' = Inr (''10110'', ?fs1)"
    using compress_eq [of ?fs "''a.txt''" ?t "''0''"] full pe syms
    by (simp add: opened is_open_def unread_def m t cs close_ofbitstream_def pad_bits_def
        emitted_bits_def pad)
  have stored: "huf ?fs1 ''a.txt.huf'' = Some ([(97, 1), (98, 1), (256, 1)], ?bits)"
    by simp
  have name: "output_name ''a.txt.huf'' = Inr ''a_unc.txt''"
    by (simp add: output_name_def substr_def)
  have tree: "buildEncodingTree (replay ?fs1 [(97, 1), (98, 1), (256, 1)]) = Inr ?u"
    using u by simp
  have pu: "path ?u PSEUDO_EOF = Some ''0''"
    by (simp add: PSEUDO_EOF_def NOT_A_CHAR_def)
  have "\<forall>k\<in>set [98, 97]. k \<noteq> PSEUDO_EOF \<and> path ?u k \<noteq> None"
    by (simp add: PSEUDO_EOF_def NOT_A_CHAR_def)
  then have "decode (emitted_bits (symbol_codes ?u [98, 97] @ ''0'') @ [False, False, False], False) ?u []
             = Inr (map int_to_char [98, 97], [] @ map int_to_char [98, 97])"
    by (intro decode_complete [OF pu]) simp_all
  moreover have "symbol_codes ?u [98, 97] = ''1011''"
    by (simp add: symbol_codes_def NOT_A_CHAR_def)
  ultimately have dec: "decode (?bits, False) ?u [] = Inr (''ba'', ''ba'')"
    by (simp add: emitted_bits_def int_to_char_def char_of_def)
  from decompress_eq [OF stored name tree dec] c show ?thesis
    by blast
qed


subsection \<open>The built tree has the least weighted path length\<close>

lemma tip_depths_le: "d \<in># tip_depths s \<Longrightarrow> d \<le> tallest s"
  by (induction s arbitrary: d) (fastforce simp: max_def)+

lemma tip_depths_nonempty [simp]: "tip_depths s \<noteq> {#}"
  by (induction s) auto

lemma size_tip_depths_pos: "0 < size (tip_depths s)"
  by (induction s) auto

lemma size_tip_depths_Fork: "2 \<le> size (tip_depths (Fork l r))"
  using size_tip_depths_pos [of l] size_tip_depths_pos [of r] by simp

lemma tallest_0_iff: "tallest s = 0 \<longleftrightarrow> s = Tip"
  by (cases s) auto

text \<open>Two deepest tips can be joined into their parent.\<close>

lemma join_deepest:
  "s \<noteq> Tip \<Longrightarrow> \<exists>R s'. tip_depths s = add_mset (tallest s) (add_mset (tallest s) R)
                       \<and> tip_depths s' = add_mset (tallest s - 1) R"
proof (induction s)
  case Tip
  then show ?case by simp
next
  case (Fork l r)
  consider "l = Tip" "r = Tip" | "l \<noteq> Tip" "tallest r \<le> tallest l" | "r \<noteq> Tip" "tallest l < tallest r"
    using tallest_0_iff [of l] tallest_0_iff [of r]
    by (cases "tallest r \<le> tallest l") fastforce+
  then show ?case
  proof cases
    case 1
    have "tip_depths (Fork l r) = add_mset 1 (add_mset 1 {#})" "tip_depths Tip = add_mset 0 {#}"
      using 1 by simp_all
    then show ?thesis
      using 1 by (intro exI [of _ "{#}"] exI [of _ Tip]) simp
  next
    case 2
    from Fork.IH(1) [OF 2(1)] obtain R l' where
      l: "tip_depths l = add_mset (tallest l) (add_mset (tallest l) R)"
         "tip_depths l' = add_mset (tallest l - 1) R"
      by blast
    have pos: "0 < tallest l"
      using 2(1) tallest_0_iff [of l] by simp
    have top: "tallest (Fork l r) = Suc (tallest l)"
      using 2(2) by simp
    have "tip_depths (Fork l r)
          = add_mset (tallest (Fork l r)) (add_mset (tallest (Fork l r))
              (image_mset Suc R + image_mset Suc (tip_depths r)))"
      unfolding top by (simp add: l(1))
    moreover have "tip_depths (Fork l' r)
          = add_mset (tallest (Fork l r) - 1) (image_mset Suc R + image_mset Suc (tip_depths r))"
      unfolding top using pos by (simp add: l(2))
    ultimately show ?thesis
      by blast
  next
    case 3
    from Fork.IH(2) [OF 3(1)] obtain R r' where
      r: "tip_depths r = add_mset (tallest r) (add_mset (tallest r) R)"
         "tip_depths r' = add_mset (tallest r - 1) R"
      by blast
    have pos: "0 < tallest r"
      using 3(2) by simp
    have top: "tallest (Fork l r) = Suc (tallest r)"
      using 3(2) by simp
    have "tip_depths (Fork l r)
          = add_mset (tallest (Fork l r)) (add_mset (tallest (Fork l r))
              (image_mset Suc (tip_depths l) + image_mset Suc R))"
      unfolding top by (simp add: r(1))
    moreover have "tip_depths (Fork l r')
          = add_mset (tallest (Fork l r) - 1) (image_mset Suc (tip_depths l) + image_mset Suc R)"
      unfolding top using pos by (simp add: r(2))
    ultimately show ?thesis
      by blast
  qed
qed

lemma pair_cost_add [simp]: "pair_cost (add_mset (w, d) P) = w * int d + pair_cost P"
  by (simp add: pair_cost_def)

text \<open>The least weight can be moved to the greatest depth without raising the cost.\<close>

lemma sink_least:
  assumes "\<forall>x\<in>#image_mset fst Q. a \<le> x"
    and "h \<in># image_mset snd (add_mset (a, da) Q)"
    and "\<forall>d\<in>#image_mset snd (add_mset (a, da) Q). d \<le> h"
  shows "\<exists>Q'. image_mset fst Q' = image_mset fst Q
            \<and> add_mset h (image_mset snd Q') = image_mset snd (add_mset (a, da) Q)
            \<and> pair_cost (add_mset (a, h) Q') \<le> pair_cost (add_mset (a, da) Q)"
proof (cases "da = h")
  case True
  then show ?thesis
    by (intro exI [of _ Q]) simp
next
  case False
  with assms(2) have "h \<in># image_mset snd Q"
    by auto
  then obtain p where p: "p \<in># Q" "snd p = h"
    by auto
  then obtain x Q0 where Q: "Q = add_mset (x, h) Q0"
    by (metis insert_DiffM prod.collapse)
  have ax: "a \<le> x"
    using assms(1) unfolding Q by simp
  have dh: "da \<le> h"
    using assms(3) by simp
  have "0 \<le> (x - a) * (int h - int da)"
    using ax dh by (intro mult_nonneg_nonneg) simp_all
  then have "a * int h + x * int da \<le> a * int da + x * int h"
    by (simp add: algebra_simps)
  then show ?thesis
    unfolding Q by (intro exI [of _ "add_mset (x, da) Q0"]) simp
qed


text \<open>One step of the greedy merge, on weights paired with depths.\<close>

lemma merge_step:
  assumes weights: "image_mset fst P = add_mset w1 (add_mset w2 W)"
    and least: "w1 \<le> w2" "\<forall>w\<in>#W. w2 \<le> w"
    and depths: "image_mset snd P = tip_depths s"
  shows "\<exists>P' s'. image_mset fst P' = add_mset (w1 + w2) W \<and> image_mset snd P' = tip_depths s'
           \<and> pair_cost P' + (w1 + w2) \<le> pair_cost P"
proof -
  define h where "h = tallest s"
  have "size (image_mset fst P) = size (image_mset snd P)"
    by simp
  then have "2 \<le> size (tip_depths s)"
    unfolding weights depths by simp
  then have "s \<noteq> Tip"
    by auto
  from join_deepest [OF this] obtain R s' where
    R: "tip_depths s = add_mset h (add_mset h R)" "tip_depths s' = add_mset (h - 1) R"
    unfolding h_def by blast
  have pos: "0 < h"
    using \<open>s \<noteq> Tip\<close> tallest_0_iff [of s] by (simp add: h_def)
  have bound: "\<forall>d\<in>#tip_depths s. d \<le> h"
    by (simp add: h_def tip_depths_le)
  from msed_map_invR [OF weights] obtain P1 p1 where
    P: "P = add_mset p1 P1" and p1: "fst p1 = w1" and P1: "image_mset fst P1 = add_mset w2 W"
    by blast
  obtain d1 where p1': "p1 = (w1, d1)"
    using p1 by (cases p1) simp
  have "\<forall>x\<in>#image_mset fst P1. w1 \<le> x"
    unfolding P1 using least by auto
  moreover have "h \<in># image_mset snd (add_mset (w1, d1) P1)"
    using depths unfolding P p1' R(1) by simp
  moreover have "\<forall>d\<in>#image_mset snd (add_mset (w1, d1) P1). d \<le> h"
    using bound depths unfolding P p1' by simp
  ultimately obtain Q where
    Q: "image_mset fst Q = image_mset fst P1"
       "add_mset h (image_mset snd Q) = image_mset snd (add_mset (w1, d1) P1)"
       "pair_cost (add_mset (w1, h) Q) \<le> pair_cost (add_mset (w1, d1) P1)"
    using sink_least [of P1 w1 h d1] by blast
  have Qd: "image_mset snd Q = add_mset h R"
    using Q(2) depths unfolding P p1' R(1) by simp
  from msed_map_invR [OF Q(1) [unfolded P1]] obtain Q2 p2 where
    Q2: "Q = add_mset p2 Q2" "fst p2 = w2" "image_mset fst Q2 = W"
    by blast
  obtain d2 where p2': "p2 = (w2, d2)"
    using Q2(2) by (cases p2) simp
  have "\<forall>x\<in>#image_mset fst Q2. w2 \<le> x"
    unfolding Q2(3) using least by auto
  moreover have "h \<in># image_mset snd (add_mset (w2, d2) Q2)"
    using Qd unfolding Q2(1) p2' by simp
  moreover have "\<forall>d\<in>#image_mset snd (add_mset (w2, d2) Q2). d \<le> h"
    using bound Qd unfolding Q2(1) p2' R(1) by auto
  ultimately obtain Q' where
    Q': "image_mset fst Q' = image_mset fst Q2"
        "add_mset h (image_mset snd Q') = image_mset snd (add_mset (w2, d2) Q2)"
        "pair_cost (add_mset (w2, h) Q') \<le> pair_cost (add_mset (w2, d2) Q2)"
    using sink_least [of Q2 w2 h d2] by blast
  have Q'd: "image_mset snd Q' = R"
    using Q'(2) Qd unfolding Q2(1) p2' by simp
  let ?P' = "add_mset (w1 + w2, h - 1) Q'"
  have "image_mset fst ?P' = add_mset (w1 + w2) W"
    by (simp add: Q'(1) Q2(3))
  moreover have "image_mset snd ?P' = tip_depths s'"
    by (simp add: Q'd R(2))
  moreover have "pair_cost ?P' + (w1 + w2) \<le> pair_cost P"
  proof -
    have "int (h - 1) = int h - 1"
      using pos by simp
    then have "pair_cost ?P' + (w1 + w2) = w1 * int h + pair_cost (add_mset (w2, h) Q')"
      by (simp add: algebra_simps)
    also have "\<dots> \<le> w1 * int h + pair_cost Q"
      using Q'(3) unfolding Q2(1) p2' by simp
    also have "\<dots> \<le> pair_cost P"
      using Q(3) unfolding P p1' by simp
    finally show ?thesis .
  qed
  ultimately show ?thesis
    by blast
qed


lemma depth_zero_side:
  "path z1 k \<noteq> None \<Longrightarrow> depth (Node NOT_A_CHAR cnt z1 o1) k = Suc (depth z1 k)"
  by (auto simp: depth_def)

lemma depth_one_side:
  "path z1 k = None \<Longrightarrow> path o1 k \<noteq> None \<Longrightarrow> depth (Node NOT_A_CHAR cnt z1 o1) k = Suc (depth o1 k)"
  by (auto simp: depth_def)

lemma depth_leaf: "ch \<noteq> NOT_A_CHAR \<Longrightarrow> depth (Node ch cnt z1 o1) ch = 0"
  by (simp add: depth_def)

lemma leaf_weight_leaves: "leaf_weight t = sum_list (map snd (leaves t))"
  by (induction t) auto

lemma depth_below:
  assumes "distinct (map fst (leaves z1 @ leaves o1))"
  shows "\<forall>k\<in>fst ` set (leaves z1). depth (Node NOT_A_CHAR cnt z1 o1) k = Suc (depth z1 k)"
    and "\<forall>k\<in>fst ` set (leaves o1). depth (Node NOT_A_CHAR cnt z1 o1) k = Suc (depth o1 k)"
proof -
  show "\<forall>k\<in>fst ` set (leaves z1). depth (Node NOT_A_CHAR cnt z1 o1) k = Suc (depth z1 k)"
    using path_iff_leaves [of z1] by (auto intro!: depth_zero_side)
  show "\<forall>k\<in>fst ` set (leaves o1). depth (Node NOT_A_CHAR cnt z1 o1) k = Suc (depth o1 k)"
  proof
    fix k assume k: "k \<in> fst ` set (leaves o1)"
    with assms have "k \<notin> fst ` set (leaves z1)"
      by auto
    then have "path z1 k = None"
      using path_iff_leaves [of z1 k] by simp
    moreover have "path o1 k \<noteq> None"
      using k path_iff_leaves [of o1 k] by simp
    ultimately show "depth (Node NOT_A_CHAR cnt z1 o1) k = Suc (depth o1 k)"
      by (rule depth_one_side)
  qed
qed

lemma merge_cost_leaves:
  "distinct (map fst (leaves t)) \<Longrightarrow>
   sum_list (map (\<lambda>(k, c). c * int (depth t k)) (leaves t)) = merge_cost t"
proof (induction t)
  case Null
  then show ?case by simp
next
  case (Node ch cnt z1 o1)
  show ?case
  proof (cases "ch = NOT_A_CHAR")
    case False
    then show ?thesis by (simp add: depth_leaf)
  next
    case True
    with Node.prems have dist: "distinct (map fst (leaves z1 @ leaves o1))"
      by simp
    then have dz: "distinct (map fst (leaves z1))" and dn: "distinct (map fst (leaves o1))"
      by simp_all
    have "sum_list (map (\<lambda>(k, c). c * int (depth (Node NOT_A_CHAR cnt z1 o1) k)) (leaves z1))
          = sum_list (map (\<lambda>(k, c). c + c * int (depth z1 k)) (leaves z1))"
      using depth_below(1) [OF dist, of cnt]
      by (intro arg_cong [where f = sum_list] map_cong) (auto simp: algebra_simps)
    also have "\<dots> = leaf_weight z1 + merge_cost z1"
      unfolding Node.IH(1) [OF dz, symmetric] leaf_weight_leaves
      by (induction "leaves z1") (auto simp: sum_list_addf split_def)
    finally have z: "sum_list (map (\<lambda>(k, c). c * int (depth (Node NOT_A_CHAR cnt z1 o1) k)) (leaves z1))
          = leaf_weight z1 + merge_cost z1" .
    have "sum_list (map (\<lambda>(k, c). c * int (depth (Node NOT_A_CHAR cnt z1 o1) k)) (leaves o1))
          = sum_list (map (\<lambda>(k, c). c + c * int (depth o1 k)) (leaves o1))"
      using depth_below(2) [OF dist, of cnt]
      by (intro arg_cong [where f = sum_list] map_cong) (auto simp: algebra_simps)
    also have "\<dots> = leaf_weight o1 + merge_cost o1"
      unfolding Node.IH(2) [OF dn, symmetric] leaf_weight_leaves
      by (induction "leaves o1") (auto simp: sum_list_addf split_def)
    finally have o: "sum_list (map (\<lambda>(k, c). c * int (depth (Node NOT_A_CHAR cnt z1 o1) k)) (leaves o1))
          = leaf_weight o1 + merge_cost o1" .
    show ?thesis
      using True z o by simp
  qed
qed


lemma tip_depths_shape_of:
  "full_tree u \<Longrightarrow> distinct (map fst (leaves u)) \<Longrightarrow>
   image_mset (depth u) (mset (map fst (leaves u))) = tip_depths (shape_of u)"
proof (induction u)
  case Null
  then show ?case by (simp add: full_tree_def)
next
  case (Node ch cnt z1 o1)
  show ?case
  proof (cases "ch = NOT_A_CHAR")
    case False
    then show ?thesis by (simp add: depth_leaf)
  next
    case True
    with Node.prems have full: "full_tree z1" "full_tree o1"
      by (auto simp: full_tree_def)
    from True Node.prems have dist: "distinct (map fst (leaves z1 @ leaves o1))"
      by simp
    then have dz: "distinct (map fst (leaves z1))" and dn: "distinct (map fst (leaves o1))"
      by simp_all
    have "image_mset (depth (Node NOT_A_CHAR cnt z1 o1)) (mset (map fst (leaves z1)))
          = image_mset (\<lambda>k. Suc (depth z1 k)) (mset (map fst (leaves z1)))"
      using depth_below(1) [OF dist, of cnt] by (intro image_mset_cong) auto
    also have "\<dots> = image_mset Suc (tip_depths (shape_of z1))"
      unfolding Node.IH(1) [OF full(1) dz, symmetric] by (simp add: image_mset.compositionality comp_def)
    finally have z: "image_mset (depth (Node NOT_A_CHAR cnt z1 o1)) (mset (map fst (leaves z1)))
          = image_mset Suc (tip_depths (shape_of z1))" .
    have "image_mset (depth (Node NOT_A_CHAR cnt z1 o1)) (mset (map fst (leaves o1)))
          = image_mset (\<lambda>k. Suc (depth o1 k)) (mset (map fst (leaves o1)))"
      using depth_below(2) [OF dist, of cnt] by (intro image_mset_cong) auto
    also have "\<dots> = image_mset Suc (tip_depths (shape_of o1))"
      unfolding Node.IH(2) [OF full(2) dn, symmetric] by (simp add: image_mset.compositionality comp_def)
    finally have o: "image_mset (depth (Node NOT_A_CHAR cnt z1 o1)) (mset (map fst (leaves o1)))
          = image_mset Suc (tip_depths (shape_of o1))" .
    show ?thesis
      using True z o by simp
  qed
qed

lemma mset_map_pq_push: "mset (map f (pq_push n q)) = add_mset (f n) (mset (map f q))"
  by simp

lemma sum_list_mset: "sum_list (map f xs) = (sum_mset (image_mset f (mset xs)) :: int)"
  by (metis mset_map sum_mset_sum_list)

lemma sum_list_pq_push:
  "sum_list (map f (pq_push n q)) = (f n :: int) + sum_list (map f q)"
  by (simp add: sum_list_mset)

lemma sum_list_two_pops:
  assumes "1 < length pq"
  shows "sum_list (map f pq)
         = (f (hd pq) :: int) + f (hd (pq_pop pq)) + sum_list (map f (pq_pop (pq_pop pq)))"
  unfolding sum_list_mset by (subst mset_two_pops [OF assms]) simp

lemma is_heap_push_leaves: "is_heap pq \<Longrightarrow> is_heap (push_leaves m ks pq)"
  by (induction ks arbitrary: pq) (auto simp: is_heap_pq_push)

text \<open>
  The merge loop against any pairing of the queue's counts with the tip depths of a
  shape: what the loop adds to the cost is at most the cost of the pairing.
\<close>

lemma merge_nodes_least:
  assumes "is_heap pq"
    and "\<forall>t\<in>set pq. t \<noteq> Null \<and> node_count t = leaf_weight t \<and> 0 \<le> node_count t"
    and "sum_list (map node_count pq) \<le> 2147483647"
    and "pq \<noteq> []"
    and "image_mset fst P = mset (map node_count pq)"
    and "image_mset snd P = tip_depths s"
  shows "\<exists>t. merge_nodes pq = [t] \<and> merge_cost t - sum_list (map merge_cost pq) \<le> pair_cost P"
  using assms
proof (induction "length pq" arbitrary: pq P s rule: less_induct)
  case less
  show ?case
  proof (cases "1 < length pq")
    case True
    let ?first = "hd pq"
    let ?pq1 = "pq_pop pq"
    let ?second = "hd ?pq1"
    let ?pq2 = "pq_pop ?pq1"
    let ?w1 = "node_count ?first" and ?w2 = "node_count ?second"
    let ?sum = "Node NOT_A_CHAR (int32 (?w1 + ?w2)) ?first ?second"
    let ?pq = "pq_push ?sum ?pq2"
    have ne: "pq \<noteq> []" and ne1: "?pq1 \<noteq> []"
      using True pq_pop_nonempty [OF True] by auto
    have set: "set pq = insert ?first (set ?pq1)" and set1: "set ?pq1 = insert ?second (set ?pq2)"
      using set_pq_pop [OF ne] set_pq_pop [OF ne1] by simp_all
    have heap1: "is_heap ?pq1"
      using less.prems(1) by (rule is_heap_pq_pop)
    then have heap2: "is_heap ?pq2"
      by (rule is_heap_pq_pop)
    have ok: "t \<noteq> Null \<and> node_count t = leaf_weight t \<and> 0 \<le> node_count t" if "t \<in> set pq" for t
      using less.prems(2) that by blast
    have first: "?first \<noteq> Null \<and> node_count ?first = leaf_weight ?first \<and> 0 \<le> ?w1"
      by (rule ok) (simp add: set)
    have second: "?second \<noteq> Null \<and> node_count ?second = leaf_weight ?second \<and> 0 \<le> ?w2"
      by (rule ok) (simp add: set set1)
    have rest: "t \<noteq> Null \<and> node_count t = leaf_weight t \<and> 0 \<le> node_count t"
      if "t \<in> set ?pq2" for t
      using that by (intro ok) (simp add: set set1)
    have "0 \<le> x" if "x \<in> set (map node_count ?pq2)" for x
    proof -
      from that obtain t where "t \<in> set ?pq2" "x = node_count t"
        by auto
      with rest [of t] show ?thesis
        by blast
    qed
    then have "0 \<le> sum_list (map node_count ?pq2)"
      by (rule sum_list_nonneg)
    moreover have total: "sum_list (map node_count pq) = ?w1 + ?w2 + sum_list (map node_count ?pq2)"
      by (rule sum_list_two_pops [OF True])
    ultimately have "?w1 + ?w2 \<le> 2147483647"
      using less.prems(3) by simp
    moreover have nonneg: "0 \<le> ?w1 + ?w2"
      using first second by simp
    ultimately have fits: "int32 (?w1 + ?w2) = ?w1 + ?w2"
      by (intro int32_fits) simp_all
    have weight: "leaf_weight ?sum = ?w1 + ?w2"
      using first second by simp
    have new: "?sum \<noteq> Null \<and> node_count ?sum = leaf_weight ?sum \<and> 0 \<le> node_count ?sum"
      unfolding weight using nonneg by (simp only: node_count.simps fits) simp
    have heap: "is_heap ?pq"
      using heap2 by (rule is_heap_pq_push)
    have nodes:
      "\<forall>t\<in>set ?pq. t \<noteq> Null \<and> node_count t = leaf_weight t \<and> 0 \<le> node_count t"
    proof
      fix t
      assume "t \<in> set ?pq"
      then have "t = ?sum \<or> t \<in> set ?pq2"
        by simp
      then show "t \<noteq> Null \<and> node_count t = leaf_weight t \<and> 0 \<le> node_count t"
      proof
        assume eq: "t = ?sum"
        show ?thesis
          unfolding eq by (rule new)
      next
        assume "t \<in> set ?pq2"
        then show ?thesis
          by (rule rest)
      qed
    qed
    have sum: "sum_list (map node_count ?pq) \<le> 2147483647"
      using less.prems(3) unfolding total by (simp add: sum_list_pq_push fits)
    have nonempty: "?pq \<noteq> []"
      using length_pq_push [of ?sum ?pq2] by (cases ?pq) auto
    have "mset (map node_count pq)
          = add_mset ?w1 (add_mset ?w2 (mset (map node_count ?pq2)))"
      using mset_two_pops [OF True] by (metis image_mset_add_mset mset_map)
    then have "image_mset fst P = add_mset ?w1 (add_mset ?w2 (mset (map node_count ?pq2)))"
      using less.prems(5) by simp
    moreover have "?w1 \<le> ?w2"
      using is_heap_least [OF less.prems(1), of ?second] by (simp add: set set1)
    moreover have "\<forall>w\<in>#mset (map node_count ?pq2). ?w2 \<le> w"
      using is_heap_least [OF heap1] by (auto simp: set1)
    ultimately obtain P' s' where
      P': "image_mset fst P' = add_mset (?w1 + ?w2) (mset (map node_count ?pq2))"
          "image_mset snd P' = tip_depths s'"
          "pair_cost P' + (?w1 + ?w2) \<le> pair_cost P"
      using merge_step [OF _ _ _ less.prems(6)] by blast
    have weights: "image_mset fst P' = mset (map node_count ?pq)"
      using P'(1) by (simp only: mset_map_pq_push node_count.simps fits)
    from less.hyps [OF length_round [OF True] heap nodes sum nonempty weights P'(2)]
    obtain t where t: "merge_nodes ?pq = [t]"
        "merge_cost t - sum_list (map merge_cost ?pq) \<le> pair_cost P'"
      by blast
    have "sum_list (map merge_cost ?pq) = merge_cost ?sum + sum_list (map merge_cost ?pq2)"
      by (rule sum_list_pq_push)
    also have "merge_cost ?sum = (?w1 + ?w2) + merge_cost ?first + merge_cost ?second"
      using first second by simp
    finally have "sum_list (map merge_cost ?pq) = (?w1 + ?w2) + sum_list (map merge_cost pq)"
      by (simp add: sum_list_two_pops [OF True, of merge_cost])
    with t(2) P'(3) have "merge_cost t - sum_list (map merge_cost pq) \<le> pair_cost P"
      by simp
    moreover have "merge_nodes pq = [t]"
      using merge_nodes_round [OF True] second t(1) by simp
    ultimately show ?thesis
      by blast
  next
    case False
    with less.prems(4) obtain n where pq: "pq = [n]"
      by (cases pq) auto
    from less.prems(5) obtain p where P: "P = {#p#}"
      unfolding pq
      by (metis (no_types) list.simps(8,9) mset.simps msed_map_invR image_mset_is_empty_iff mset_zero_iff)
    then have "size (tip_depths s) = 1"
      using less.prems(6) by (metis size_image_mset size_single)
    then have "s = Tip"
    proof (cases s)
      case (Fork l r)
      with size_tip_depths_Fork [of l r] \<open>size (tip_depths s) = 1\<close> show ?thesis
        by simp
    qed
    then have "pair_cost P = 0"
      using less.prems(6) P by (cases p) (simp add: pair_cost_def)
    then show ?thesis
      by (simp add: pq merge_nodes_done)
  qed
qed

lemma sum_list_map_mset:
  "mset xs = mset ys \<Longrightarrow> sum_list (map f xs) = (sum_list (map f ys) :: int)"
  by (metis mset_map sum_mset_sum_list)

lemma distinct_mset_eq: "mset xs = mset ys \<Longrightarrow> distinct ys \<Longrightarrow> distinct xs"
  by (metis distinct_count_atmost_1 count_mset_0_iff set_mset_mset mset_eq_setD)

lemma merge_cost_push_leaves:
  "NOT_A_CHAR \<notin> set ks \<Longrightarrow> sum_list (map merge_cost pq) = 0 \<Longrightarrow>
   sum_list (map merge_cost (push_leaves m ks pq)) = 0"
  by (induction ks arbitrary: pq) (auto simp: sum_list_pq_push)

lemma counts_push_leaves:
  "mset (map node_count (push_leaves m ks pq)) = mset (map node_count pq) + mset (map (get m) ks)"
  by (induction ks arbitrary: pq) (auto simp: mset_map_pq_push)

lemma get_keys: "distinct (keys m) \<Longrightarrow> map (get m) (keys m) = map snd m"
proof -
  assume "distinct (keys m)"
  then have "map snd (map (\<lambda>k. (k, get m k)) (keys m)) = map snd m"
    by (simp only: entries_of_keys)
  then show ?thesis
    by (simp add: comp_def)
qed

text \<open>
  C3, as the code has it: for every frequency model that is not empty, lists no key twice,
  has no key equal to the internal marker, and whose counts are not negative and add up to
  at most 2147483647, the tree that \<^verbatim>\<open>buildEncodingTree\<close> returns is a code tree for the
  model, and its weighted path length (the sum over the symbols of count times depth) is at
  most that of every code tree for the model.
\<close>

theorem buildEncodingTree_optimal:
  assumes "keys m \<noteq> []" and "NOT_A_CHAR \<notin> set (keys m)" and "distinct (keys m)"
    and "\<forall>c\<in>set (map snd m). 0 \<le> c" and "sum_list (map snd m) \<le> 2147483647"
  shows "\<exists>t. buildEncodingTree m = Inr t \<and> code_tree_for m t
           \<and> (\<forall>u. code_tree_for m u \<longrightarrow> weighted_path_length m t \<le> weighted_path_length m u)"
proof -
  let ?pq = "push_leaves m (keys m) []"
  from buildEncodingTree_full [OF assms(1,2)] obtain t where
    t: "buildEncodingTree m = Inr t" and full: "full_tree t"
    by blast
  have leaves: "mset (leaves t) = mset m"
    by (rule buildEncodingTree_leaves [OF t assms(2,3)])
  then have symbols: "mset (map fst (leaves t)) = mset (keys m)"
    unfolding keys_def by (metis mset_map)
  then have tree: "code_tree_for m t"
    using full by (simp add: code_tree_for_def)
  have "distinct (map fst (leaves t))"
    using symbols assms(3) by (rule distinct_mset_eq)
  then have "sum_list (map (\<lambda>(k, c). c * int (depth t k)) (leaves t)) = merge_cost t"
    by (rule merge_cost_leaves)
  then have cost_t: "weighted_path_length m t = merge_cost t"
    unfolding weighted_path_length_def using sum_list_map_mset [OF leaves] by metis
  have nonempty: "?pq \<noteq> []"
    using assms(1) by (simp add: push_leaves_Nil_iff)
  have "\<forall>x\<in>set ?pq. full_tree x"
    using assms(2) by (auto simp: set_push_leaves intro!: full_tree_leaf)
  from merge_nodes_full [OF nonempty this] obtain t' where "merge_nodes ?pq = [t']"
    by blast
  with t have run: "merge_nodes ?pq = [t]"
    by (simp add: buildEncodingTree_def pq_top_def)
  have heap: "is_heap ?pq"
    by (rule is_heap_push_leaves) (simp add: is_heap_def)
  have counts: "mset (map node_count ?pq) = mset (map snd m)"
    unfolding counts_push_leaves get_keys [OF assms(3)] by simp
  then have "set (map node_count ?pq) = set (map snd m)"
    by (rule mset_eq_setD)
  then have "\<forall>c\<in>set (map node_count ?pq). 0 \<le> c"
    using assms(4) by (simp only:)
  then have "\<forall>t\<in>set ?pq. 0 \<le> node_count t"
    by simp
  then have nodes: "\<forall>t\<in>set ?pq. t \<noteq> Null \<and> node_count t = leaf_weight t \<and> 0 \<le> node_count t"
    using assms(2) by (auto simp: set_push_leaves)
  have "sum_list (map node_count ?pq) = sum_list (map snd m)"
    using counts by (metis sum_mset_sum_list)
  then have total: "sum_list (map node_count ?pq) \<le> 2147483647"
    using assms(5) by simp
  have zero: "sum_list (map merge_cost ?pq) = 0"
    by (rule merge_cost_push_leaves [OF assms(2)]) simp
  have "weighted_path_length m t \<le> weighted_path_length m u" if u: "code_tree_for m u" for u
  proof -
    let ?P = "image_mset (\<lambda>(k, c). (c, depth u k)) (mset m)"
    have du: "distinct (map fst (leaves u))"
      using u assms(3) unfolding code_tree_for_def by (auto intro: distinct_mset_eq)
    have weights: "image_mset fst ?P = mset (map node_count ?pq)"
      unfolding counts by (simp add: image_mset.compositionality comp_def split_def)
    have "image_mset snd ?P = image_mset (depth u) (mset (keys m))"
      by (simp add: image_mset.compositionality comp_def split_def keys_def)
    also have "\<dots> = image_mset (depth u) (mset (map fst (leaves u)))"
      using u by (simp add: code_tree_for_def)
    also have "\<dots> = tip_depths (shape_of u)"
      using u du by (intro tip_depths_shape_of) (simp_all add: code_tree_for_def)
    finally have depths: "image_mset snd ?P = tip_depths (shape_of u)" .
    from merge_nodes_least [OF heap nodes total nonempty weights depths]
    obtain t' where "merge_nodes ?pq = [t']"
        "merge_cost t' - sum_list (map merge_cost ?pq) \<le> pair_cost ?P"
      by blast
    with run zero have "merge_cost t \<le> pair_cost ?P"
      by simp
    also have "pair_cost ?P = weighted_path_length m u"
      unfolding pair_cost_def weighted_path_length_def
      by (simp add: image_mset.compositionality comp_def split_def flip: sum_mset_sum_list)
    finally show ?thesis
      by (simp add: cost_t)
  qed
  with t tree show ?thesis
    by blast
qed

theorem buildEncodingTree_optimal_witness:
  "\<exists>t. buildEncodingTree [(97, 2), (98, 4), (256, 1)] = Inr t
     \<and> weighted_path_length [(97, 2), (98, 4), (256, 1)] t = 10
     \<and> weighted_path_length [(97, 2), (98, 4), (256, 1)]
           (Node NOT_A_CHAR 0 (Node 97 0 Null Null)
              (Node NOT_A_CHAR 0 (Node 98 0 Null Null) (Node 256 0 Null Null))) = 12
     \<and> weighted_path_length [(97, 2), (98, 4), (256, 1)] t
         \<le> weighted_path_length [(97, 2), (98, 4), (256, 1)]
           (Node NOT_A_CHAR 0 (Node 97 0 Null Null)
              (Node NOT_A_CHAR 0 (Node 98 0 Null Null) (Node 256 0 Null Null)))"
proof -
  let ?m = "[(97, 2), (98, 4), (256, 1)] :: hashmapF"
  let ?u = "Node NOT_A_CHAR 0 (Node 97 0 Null Null)
              (Node NOT_A_CHAR 0 (Node 98 0 Null Null) (Node 256 0 Null Null))"
  let ?t = "Node NOT_A_CHAR 7 (Node NOT_A_CHAR 3 (Node 256 1 Null Null) (Node 97 2 Null Null))
              (Node 98 4 Null Null)"
  have "keys ?m \<noteq> []" "NOT_A_CHAR \<notin> set (keys ?m)" "distinct (keys ?m)"
    "\<forall>c\<in>set (map snd ?m). 0 \<le> c" "sum_list (map snd ?m) \<le> 2147483647"
    by (simp_all add: keys_def NOT_A_CHAR_def)
  from buildEncodingTree_optimal [OF this] obtain t where
    t: "buildEncodingTree ?m = Inr t"
       "\<forall>u. code_tree_for ?m u \<longrightarrow> weighted_path_length ?m t \<le> weighted_path_length ?m u"
    by blast
  have "code_tree_for ?m ?u"
    by (simp add: code_tree_for_def full_tree_def keys_def NOT_A_CHAR_def)
  with t(2) have le: "weighted_path_length ?m t \<le> weighted_path_length ?m ?u"
    by blast
  have "buildEncodingTree ?m = Inr ?t"
    using tree_example by (simp add: NOT_A_CHAR_def)
  with t(1) have "t = ?t"
    by simp
  then have "weighted_path_length ?m t = 10"
    by (simp add: weighted_path_length_def depth_def NOT_A_CHAR_def)
  moreover have "weighted_path_length ?m ?u = 12"
    by (simp add: weighted_path_length_def depth_def NOT_A_CHAR_def)
  ultimately show ?thesis
    using t(1) le by blast
qed

text \<open>
  The claim C3 as the spec words it holds for every frequency model. In the model with
  the counts 1073741823, 1073741825, 1073741826 and 1073741827 and the sentinel, every count
  fits an \<^verbatim>\<open>int\<close>, but the sum of the second merge, 2147483649, does not: the node gets the
  count -2147483647, is merged first from then on, and the tree built is a chain of
  weighted path length 10737418250, while the code tree that pairs the two greatest counts
  has weighted path length 9663676428.
\<close>

theorem buildEncodingTree_not_optimal:
  "buildEncodingTree
     [(97, 1073741823), (98, 1073741825), (99, 1073741826), (100, 1073741827), (256, 1)]
   = Inr (Node NOT_A_CHAR 6
           (Node NOT_A_CHAR (- 1073741821)
              (Node NOT_A_CHAR (- 2147483647)
                 (Node NOT_A_CHAR 1073741824 (Node 256 1 Null Null) (Node 97 1073741823 Null Null))
                 (Node 98 1073741825 Null Null))
              (Node 99 1073741826 Null Null))
           (Node 100 1073741827 Null Null))
   \<and> weighted_path_length
       [(97, 1073741823), (98, 1073741825), (99, 1073741826), (100, 1073741827), (256, 1)]
       (Node NOT_A_CHAR 6
           (Node NOT_A_CHAR (- 1073741821)
              (Node NOT_A_CHAR (- 2147483647)
                 (Node NOT_A_CHAR 1073741824 (Node 256 1 Null Null) (Node 97 1073741823 Null Null))
                 (Node 98 1073741825 Null Null))
              (Node 99 1073741826 Null Null))
           (Node 100 1073741827 Null Null)) = 10737418250
   \<and> code_tree_for
       [(97, 1073741823), (98, 1073741825), (99, 1073741826), (100, 1073741827), (256, 1)]
       (Node NOT_A_CHAR 0
          (Node NOT_A_CHAR 0
             (Node NOT_A_CHAR 0 (Node 256 0 Null Null) (Node 97 0 Null Null))
             (Node 98 0 Null Null))
          (Node NOT_A_CHAR 0 (Node 99 0 Null Null) (Node 100 0 Null Null)))
   \<and> weighted_path_length
       [(97, 1073741823), (98, 1073741825), (99, 1073741826), (100, 1073741827), (256, 1)]
       (Node NOT_A_CHAR 0
          (Node NOT_A_CHAR 0
             (Node NOT_A_CHAR 0 (Node 256 0 Null Null) (Node 97 0 Null Null))
             (Node 98 0 Null Null))
          (Node NOT_A_CHAR 0 (Node 99 0 Null Null) (Node 100 0 Null Null))) = 9663676428"
proof -
  let ?m = "[(97, 1073741823), (98, 1073741825), (99, 1073741826), (100, 1073741827), (256, 1)]
            :: hashmapF"
  let ?t = "Node NOT_A_CHAR 6
           (Node NOT_A_CHAR (- 1073741821)
              (Node NOT_A_CHAR (- 2147483647)
                 (Node NOT_A_CHAR 1073741824 (Node 256 1 Null Null) (Node 97 1073741823 Null Null))
                 (Node 98 1073741825 Null Null))
              (Node 99 1073741826 Null Null))
           (Node 100 1073741827 Null Null)"
  have "push_leaves ?m (keys ?m) []
        = [Node 256 1 Null Null, Node 97 1073741823 Null Null, Node 99 1073741826 Null Null,
           Node 100 1073741827 Null Null, Node 98 1073741825 Null Null]"
    by (simp add: keys_def get_def heap_simps)
  moreover have "merge_nodes
          [Node 256 1 Null Null, Node 97 1073741823 Null Null, Node 99 1073741826 Null Null,
           Node 100 1073741827 Null Null, Node 98 1073741825 Null Null] = [?t]"
    by (simp add: heap_simps)
  ultimately have "buildEncodingTree ?m = Inr ?t"
    by (intro buildEncodingTree_run) (simp only:)
  then show ?thesis
    by (simp add: weighted_path_length_def depth_def code_tree_for_def full_tree_def keys_def
        NOT_A_CHAR_def)
qed

end
